theory Spec2Isabelle
  imports Main "HOL-Library.Word" "HOL-Library.Log_Nat"
begin

section \<open>The shared record: \<open>struct state\<close> and \<open>state_map\<close>\<close>

text \<open>
  Both source files declare the same \<open>struct state\<close>: two \<open>__u64\<close> counters and a
  \<open>__u32\<close> probability. The map \<open>state_map\<close> is keyed by a \<open>__u32\<close>. A lookup returns a
  pointer or \<open>NULL\<close> (kernel side), respectively zero or an error code (user side):
  the map is a partial function and a failed lookup is \<open>None\<close>.
\<close>

type_synonym u32 = "32 word"
type_synonym u64 = "64 word"

text \<open>A C \<open>long\<close> (64 bits on the targets of libbpf) is a word read with \<open>sint\<close>.\<close>

type_synonym c_long = "64 word"

record state =
  packet_count :: u64
  dropped_count :: u64
  drop_probability :: u32

type_synonym state_map = "u32 \<rightharpoonup> state"

text \<open>
  \<open>bpf_map_update_elem\<close> with \<open>BPF_ANY\<close> stores a whole record under the key, whatever
  was there.
\<close>

definition bpf_map_update_elem :: "state_map \<Rightarrow> u32 \<Rightarrow> state \<Rightarrow> state_map" where
  "bpf_map_update_elem m key v = m(key \<mapsto> v)"

text \<open>
  \<open>state_map\<close> is declared with the type \<open>BPF_MAP_TYPE_ARRAY\<close> and \<open>max_entries\<close> 1. An
  array map holds an entry under every key below \<open>max_entries\<close> and under no other key:
  the entries exist, filled with zeros, from the creation of the map on, and none can
  be deleted.
\<close>

definition max_entries :: u32 where
  "max_entries = 1"

definition array_map :: "state_map \<Rightarrow> bool" where
  "array_map m = (\<forall>key. (m key \<noteq> None) = (key < max_entries))"

definition state_map_created :: state_map where
  "state_map_created =
     (\<lambda>key. if key < max_entries
        then Some \<lparr>packet_count = 0, dropped_count = 0, drop_probability = 0\<rparr> else None)"

section \<open>The kernel program: \<open>packet_dropper.bpf.c\<close>\<close>

datatype tc_action = TC_ACT_OK | TC_ACT_SHOT

text \<open>A line written by \<open>bpf_printk\<close>: the direction and the probability.\<close>

datatype printk = Printk u32 u32

text \<open>
  \<open>handle_packet\<close>. The first argument is what \<open>bpf_get_prandom_u32()\<close> returns in
  this invocation; \<open>direction\<close> is 1 for ingress and 2 for egress. The result is the
  verdict, the map after the invocation and what was printed. The pointer \<open>s\<close> points
  into the map, so both \<open>__sync_fetch_and_add\<close> calls update the map entry in place;
  \<open>%\<close> and \<open><\<close> are unsigned 32-bit operations.
\<close>

definition handle_packet :: "u32 \<Rightarrow> u32 \<Rightarrow> state_map \<Rightarrow> tc_action \<times> state_map \<times> printk list" where
  "handle_packet prandom direction m =
     (case m 0 of
        None \<Rightarrow> (TC_ACT_OK, m, [])
      | Some s \<Rightarrow>
          let s1 = s\<lparr>packet_count := packet_count s + 1\<rparr> in
          if prandom mod 100 < drop_probability s1
          then (TC_ACT_SHOT,
                m(0 \<mapsto> s1\<lparr>dropped_count := dropped_count s1 + 1\<rparr>),
                [Printk direction (drop_probability s1)])
          else (TC_ACT_OK, m(0 \<mapsto> s1), []))"

definition handle_ingress :: "u32 \<Rightarrow> state_map \<Rightarrow> tc_action \<times> state_map \<times> printk list" where
  "handle_ingress prandom m = handle_packet prandom 1 m"

definition handle_egress :: "u32 \<Rightarrow> state_map \<Rightarrow> tc_action \<times> state_map \<times> printk list" where
  "handle_egress prandom m = handle_packet prandom 2 m"

section \<open>C \<open>double\<close> arithmetic\<close>

text \<open>
  \<open>loader.c\<close> computes the packet rate and the new probability in \<open>double\<close>: IEEE 754
  binary64 with round-to-nearest, ties-to-even. A finite double is the rational it
  denotes; the infinities and NaN are separate values. The sign of a zero is not
  represented: every zero of this program comes from an integer conversion, a
  subtraction or an underflow of a non-negative quotient, and is \<open>+0\<close>.
\<close>

datatype double = Finite rat | PInf | NInf | NaN

text \<open>\<open>ilog2 q\<close> is \<open>\<lfloor>log\<^sub>2 q\<rfloor>\<close> for \<open>q > 0\<close>, computed on integers.\<close>

definition ilog2 :: "rat \<Rightarrow> int" where
  "ilog2 q = (if 1 \<le> q then bitlen \<lfloor>q\<rfloor> - 1 else - bitlen (\<lceil>1 / q\<rceil> - 1))"

text \<open>Rounding to the nearest integer, a tie going to the even neighbour.\<close>

definition round_even :: "rat \<Rightarrow> int" where
  "round_even t =
     (let f = \<lfloor>t\<rfloor>; d = t - of_int f in
      if d < 1 / 2 then f
      else if 1 / 2 < d then f + 1
      else if even f then f else f + 1)"

text \<open>
  The exponent of the unit in the last place of \<open>q\<close>: 52 below the binary exponent
  of \<open>q\<close>, which is at least \<open>-1022\<close> (below it, the subnormal numbers share one unit).
\<close>

definition ulp_exp :: "rat \<Rightarrow> int" where
  "ulp_exp q = max (ilog2 \<bar>q\<bar>) (- 1022) - 52"

definition ulp :: "rat \<Rightarrow> rat" where
  "ulp q = 2 powi ulp_exp q"

text \<open>
  The multiple of the unit in the last place nearest to a positive \<open>q\<close>: its
  significand has at most 53 bits, or it is the next power of two.
\<close>

definition round_mag :: "rat \<Rightarrow> rat" where
  "round_mag q = of_int (round_even (q / ulp q)) * ulp q"

text \<open>The same for any sign: the rounded magnitude with the sign of \<open>q\<close>.\<close>

definition round_nearest :: "rat \<Rightarrow> rat" where
  "round_nearest q = sgn q * round_mag \<bar>q\<bar>"

text \<open>
  \<open>round_double q\<close> is the double nearest to \<open>q\<close>, or an infinity when the rounded
  magnitude reaches \<open>2\<^sup>1\<^sup>0\<^sup>2\<^sup>4\<close>.
\<close>

definition round_double :: "rat \<Rightarrow> double" where
  "round_double q =
     (if 2 powi 1024 \<le> \<bar>round_nearest q\<bar> then (if 0 < q then PInf else NInf)
      else Finite (round_nearest q))"

text \<open>The rationals that are doubles: rounding returns them unchanged.\<close>

definition is_double :: "rat \<Rightarrow> bool" where
  "is_double q \<longleftrightarrow> round_double q = Finite q"

text \<open>
  The smallest positive normal double, and the unit roundoff: from \<open>min_normal\<close> on,
  rounding changes a value by at most the fraction \<open>unit_roundoff\<close> of it.
\<close>

definition min_normal :: rat where
  "min_normal = 2 powi (- 1022)"

definition unit_roundoff :: rat where
  "unit_roundoff = 2 powi (- 53)"

text \<open>Conversions from \<open>__u64\<close> and from \<open>long\<close>.\<close>

definition double_of_u64 :: "u64 \<Rightarrow> double" where
  "double_of_u64 w = round_double (of_int (uint w))"

definition double_of_long :: "c_long \<Rightarrow> double" where
  "double_of_long w = round_double (of_int (sint w))"

fun double_mul :: "double \<Rightarrow> double \<Rightarrow> double" where
  "double_mul (Finite x) (Finite y) = round_double (x * y)"
| "double_mul NaN _ = NaN"
| "double_mul _ NaN = NaN"
| "double_mul (Finite x) PInf = (if x = 0 then NaN else if 0 < x then PInf else NInf)"
| "double_mul (Finite x) NInf = (if x = 0 then NaN else if 0 < x then NInf else PInf)"
| "double_mul PInf (Finite y) = (if y = 0 then NaN else if 0 < y then PInf else NInf)"
| "double_mul NInf (Finite y) = (if y = 0 then NaN else if 0 < y then NInf else PInf)"
| "double_mul PInf PInf = PInf"
| "double_mul PInf NInf = NInf"
| "double_mul NInf PInf = NInf"
| "double_mul NInf NInf = PInf"

text \<open>Division; a zero divisor is \<open>+0\<close>, so the quotient has the sign of the dividend.\<close>

fun double_div :: "double \<Rightarrow> double \<Rightarrow> double" where
  "double_div (Finite x) (Finite y) =
     (if y = 0 then (if x = 0 then NaN else if 0 < x then PInf else NInf)
      else round_double (x / y))"
| "double_div NaN _ = NaN"
| "double_div _ NaN = NaN"
| "double_div (Finite x) PInf = Finite 0"
| "double_div (Finite x) NInf = Finite 0"
| "double_div PInf (Finite y) = (if 0 \<le> y then PInf else NInf)"
| "double_div NInf (Finite y) = (if 0 \<le> y then NInf else PInf)"
| "double_div PInf PInf = NaN"
| "double_div PInf NInf = NaN"
| "double_div NInf PInf = NaN"
| "double_div NInf NInf = NaN"

fun double_sub :: "double \<Rightarrow> double \<Rightarrow> double" where
  "double_sub (Finite x) (Finite y) = round_double (x - y)"
| "double_sub NaN _ = NaN"
| "double_sub _ NaN = NaN"
| "double_sub (Finite x) PInf = NInf"
| "double_sub (Finite x) NInf = PInf"
| "double_sub PInf (Finite y) = PInf"
| "double_sub NInf (Finite y) = NInf"
| "double_sub PInf PInf = NaN"
| "double_sub PInf NInf = PInf"
| "double_sub NInf PInf = NInf"
| "double_sub NInf NInf = NaN"

text \<open>The comparisons \<open>a > b\<close> and \<open>a >= b\<close>: false whenever an operand is NaN.\<close>

fun double_gt :: "double \<Rightarrow> double \<Rightarrow> bool" where
  "double_gt (Finite x) (Finite y) = (y < x)"
| "double_gt NaN _ = False"
| "double_gt _ NaN = False"
| "double_gt PInf PInf = False"
| "double_gt PInf _ = True"
| "double_gt NInf _ = False"
| "double_gt (Finite x) PInf = False"
| "double_gt (Finite x) NInf = True"

fun double_ge :: "double \<Rightarrow> double \<Rightarrow> bool" where
  "double_ge (Finite x) (Finite y) = (y \<le> x)"
| "double_ge NaN _ = False"
| "double_ge _ NaN = False"
| "double_ge PInf _ = True"
| "double_ge NInf NInf = True"
| "double_ge NInf _ = False"
| "double_ge (Finite x) PInf = False"
| "double_ge (Finite x) NInf = True"

text \<open>
  What C leaves undefined is an error of the model: the overflow of a signed
  subtraction, and the conversion to \<open>__u32\<close> of a double whose truncation is not a
  \<open>__u32\<close>.
\<close>

datatype undefined_behaviour = Signed_overflow | Conversion_out_of_range

text \<open>The cast \<open>(__u32)x\<close> of a double: truncation towards zero.\<close>

definition truncate_rat :: "rat \<Rightarrow> int" where
  "truncate_rat q = (if 0 \<le> q then \<lfloor>q\<rfloor> else \<lceil>q\<rceil>)"

fun double_to_u32 :: "double \<Rightarrow> undefined_behaviour + u32" where
  "double_to_u32 (Finite q) =
     (if 0 \<le> truncate_rat q \<and> truncate_rat q < 2 ^ 32 then Inr (word_of_int (truncate_rat q))
      else Inl Conversion_out_of_range)"
| "double_to_u32 _ = Inl Conversion_out_of_range"

text \<open>The subtraction \<open>a - b\<close> of two \<open>long\<close>.\<close>

definition long_sub :: "c_long \<Rightarrow> c_long \<Rightarrow> undefined_behaviour + c_long" where
  "long_sub a b =
     (if - (2 ^ 63) \<le> sint a - sint b \<and> sint a - sint b < 2 ^ 63 then Inr (a - b)
      else Inl Signed_overflow)"

section \<open>The loader: \<open>loader.c\<close>\<close>

datatype operating_mode = MODE_DYNAMIC | MODE_FIXED

text \<open>
  The locals of \<open>main\<close> that the options set. \<open>mode\<close> starts as \<open>-1\<close>, which is no
  mode: \<open>None\<close>.
\<close>

record args =
  mode :: "operating_mode option"
  prob :: c_long
  max_prob :: c_long
  min_rate :: c_long
  max_rate :: c_long

definition DEFAULT_MIN_RATE_PPS :: c_long where "DEFAULT_MIN_RATE_PPS = 1000"
definition DEFAULT_MAX_RATE_PPS :: c_long where "DEFAULT_MAX_RATE_PPS = 100000"
definition DEFAULT_MAX_PROBABILITY :: c_long where "DEFAULT_MAX_PROBABILITY = 50"

definition initial_args :: args where
  "initial_args =
     \<lparr>mode = None, prob = - 1, max_prob = DEFAULT_MAX_PROBABILITY,
      min_rate = DEFAULT_MIN_RATE_PPS, max_rate = DEFAULT_MAX_RATE_PPS\<rparr>"

text \<open>
  What \<open>getopt_long\<close> returns, one option at a time: \<open>--mode\<close> with its argument, the
  four numeric options with the \<open>long\<close> that \<open>atol\<close> made of their argument, and
  \<open>Opt_usage\<close> for \<open>-h\<close> and for anything \<open>getopt_long\<close> does not know.
\<close>

datatype cli_option =
  Opt_mode string | Opt_p c_long | Opt_P c_long | Opt_m c_long | Opt_M c_long | Opt_usage

datatype message =
  Msg_invalid_mode | Msg_mode_required | Msg_prob_required | Msg_prob_range
  | Msg_max_prob_range | Msg_interface_required | Msg_if_nametoindex
  | Msg_finding_programs | Msg_create_hook | Msg_attach_ingress | Msg_attach_egress
  | Msg_finding_map | Msg_fixed_update

text \<open>What the process does to the outside, in order.\<close>

datatype event =
  Report message | Usage
  | Bpf_object_open | Bpf_object_load | Bpf_object_close
  | Tc_hook_create | Tc_attach_ingress | Tc_attach_egress | Tc_hook_destroy
  | Install_signal_handlers
  | Map_update u32 state

text \<open>
  How \<open>main\<close> ends: the process exits with a code, or it stays in one of the two
  endless loops until a signal arrives.
\<close>

datatype outcome = Exit int | Fixed_loop | Dynamic_loop

text \<open>The option loop of \<open>main\<close>; \<open>Inl\<close> is its \<open>return 1\<close>, with what was printed.\<close>

fun parse_options :: "cli_option list \<Rightarrow> args \<Rightarrow> event list + args" where
  "parse_options [] a = Inr a"
| "parse_options (Opt_mode s # os) a =
     (if s = ''dynamic'' then parse_options os (a\<lparr>mode := Some MODE_DYNAMIC\<rparr>)
      else if s = ''fixed'' then parse_options os (a\<lparr>mode := Some MODE_FIXED\<rparr>)
      else Inl [Report Msg_invalid_mode, Usage])"
| "parse_options (Opt_p v # os) a = parse_options os (a\<lparr>prob := v\<rparr>)"
| "parse_options (Opt_P v # os) a = parse_options os (a\<lparr>max_prob := v\<rparr>)"
| "parse_options (Opt_m v # os) a = parse_options os (a\<lparr>min_rate := v\<rparr>)"
| "parse_options (Opt_M v # os) a = parse_options os (a\<lparr>max_rate := v\<rparr>)"
| "parse_options (Opt_usage # os) a = Inl [Usage]"

text \<open>The checks of \<open>main\<close> on the parsed options, in the order of the source.\<close>

definition validate :: "args \<Rightarrow> bool \<Rightarrow> event list + unit" where
  "validate a have_ifname =
     (if mode a = None then Inl [Report Msg_mode_required, Usage]
      else if mode a = Some MODE_FIXED \<and> prob a = - 1 then Inl [Report Msg_prob_required, Usage]
      else if mode a = Some MODE_FIXED \<and> (sint (prob a) < 0 \<or> 100 < sint (prob a))
      then Inl [Report Msg_prob_range]
      else if mode a \<noteq> Some MODE_FIXED \<and> (sint (max_prob a) < 0 \<or> 100 < sint (max_prob a))
      then Inl [Report Msg_max_prob_range]
      else if \<not> have_ifname then Inl [Report Msg_interface_required, Usage]
      else Inr ())"

text \<open>
  The results of the calls into libc and libbpf during start-up: the index from
  \<open>if_nametoindex\<close> (0 for an unknown interface), whether the object opens and loads,
  whether each program is found, the error codes of the hook creation and of the two
  attachments, the descriptor of the map, and the return code of the map update of
  fixed mode.
\<close>

record env =
  ifindex :: int
  open_ok :: bool
  load_ok :: bool
  ing_prog_found :: bool
  eg_prog_found :: bool
  hook_create_err :: int
  ing_attach_err :: int
  eg_attach_err :: int
  map_fd :: int
  fixed_update_ret :: int

definition EEXIST :: int where "EEXIST = 17"

text \<open>\<open>cleanup\<close> destroys the hook and calls \<open>exit(0)\<close>: it does not return.\<close>

definition cleanup :: "event list \<times> outcome" where
  "cleanup = ([Tc_hook_destroy], Exit 0)"

text \<open>The record that fixed mode writes; the cast of \<open>prob\<close> to \<open>__u32\<close> keeps 32 bits.\<close>

definition fixed_state :: "c_long \<Rightarrow> state" where
  "fixed_state p = \<lparr>packet_count = 0, dropped_count = 0, drop_probability = ucast p\<rparr>"

text \<open>
  \<open>main\<close> from the loading of the object to the entry of a loop. Each failure path
  is a branch; where the source calls \<open>cleanup(0)\<close> the events and the outcome are
  those of \<open>cleanup\<close>, since the \<open>return 1\<close> after the call is never reached.
\<close>

definition attach_and_run :: "args \<Rightarrow> env \<Rightarrow> event list \<times> outcome" where
  "attach_and_run a e =
     (if ifindex e = 0 then ([Report Msg_if_nametoindex], Exit 1)
      else if \<not> open_ok e then ([Bpf_object_open], Exit 1)
      else if \<not> load_ok e then ([Bpf_object_open, Bpf_object_load, Bpf_object_close], Exit 1)
      else if \<not> ing_prog_found e \<or> \<not> eg_prog_found e
      then ([Bpf_object_open, Bpf_object_load, Report Msg_finding_programs, Bpf_object_close],
            Exit 1)
      else if hook_create_err e \<noteq> 0 \<and> hook_create_err e \<noteq> - EEXIST
      then ([Bpf_object_open, Bpf_object_load, Tc_hook_create, Report Msg_create_hook,
             Bpf_object_close], Exit 1)
      else if ing_attach_err e \<noteq> 0
      then ([Bpf_object_open, Bpf_object_load, Tc_hook_create, Tc_attach_ingress,
             Report Msg_attach_ingress] @ fst cleanup, snd cleanup)
      else if eg_attach_err e \<noteq> 0
      then ([Bpf_object_open, Bpf_object_load, Tc_hook_create, Tc_attach_ingress,
             Tc_attach_egress, Report Msg_attach_egress] @ fst cleanup, snd cleanup)
      else if map_fd e < 0
      then ([Bpf_object_open, Bpf_object_load, Tc_hook_create, Tc_attach_ingress,
             Tc_attach_egress, Report Msg_finding_map] @ fst cleanup, snd cleanup)
      else if mode a = Some MODE_FIXED
      then
        (if fixed_update_ret e \<noteq> 0
         then ([Bpf_object_open, Bpf_object_load, Tc_hook_create, Tc_attach_ingress,
                Tc_attach_egress, Install_signal_handlers, Map_update 0 (fixed_state (prob a)),
                Report Msg_fixed_update] @ fst cleanup, snd cleanup)
         else ([Bpf_object_open, Bpf_object_load, Tc_hook_create, Tc_attach_ingress,
                Tc_attach_egress, Install_signal_handlers, Map_update 0 (fixed_state (prob a))],
               Fixed_loop))
      else ([Bpf_object_open, Bpf_object_load, Tc_hook_create, Tc_attach_ingress,
             Tc_attach_egress, Install_signal_handlers], Dynamic_loop))"

text \<open>
  \<open>main\<close> up to its loops: the options as \<open>getopt_long\<close> delivers them, whether an
  interface name follows them (\<open>optind < argc\<close>), and the environment.
\<close>

definition main_startup :: "cli_option list \<Rightarrow> bool \<Rightarrow> env \<Rightarrow> event list \<times> outcome" where
  "main_startup opts have_ifname e =
     (case parse_options opts initial_args of
        Inl evs \<Rightarrow> (evs, Exit 1)
      | Inr a \<Rightarrow>
          (case validate a have_ifname of
             Inl evs \<Rightarrow> (evs, Exit 1)
           | Inr _ \<Rightarrow> attach_and_run a e))"

text \<open>
  A signal (\<open>SIGINT\<close>, \<open>SIGTERM\<close>) in one of the loops runs \<open>cleanup\<close>; a process that
  has exited stays exited.
\<close>

fun on_signal :: "outcome \<Rightarrow> event list \<times> outcome" where
  "on_signal (Exit c) = ([], Exit c)"
| "on_signal Fixed_loop = cleanup"
| "on_signal Dynamic_loop = cleanup"

subsection \<open>The loop of dynamic mode\<close>

text \<open>The two locals that carry the baseline from one tick to the next.\<close>

record loop_state =
  last_time_ns :: u64
  last_packet_count :: u64

text \<open>
  The rate: \<open>(double)count_diff * 1e9 / time_diff_ns\<close>, the product first, the
  \<open>__u64\<close> divisor converted to \<open>double\<close>.
\<close>

definition pps_of :: "u64 \<Rightarrow> u64 \<Rightarrow> double" where
  "pps_of count_diff time_diff_ns =
     double_div (double_mul (double_of_u64 count_diff) (Finite 1000000000))
       (double_of_u64 time_diff_ns)"

text \<open>
  The value assigned to \<open>new_prob\<close>: 0 unless \<open>pps > min_rate\<close>; then \<open>max_prob\<close> cast
  to \<open>__u32\<close> if \<open>pps >= max_rate\<close>, otherwise the cast of
  \<open>((pps - min_rate) / (max_rate - min_rate)) * max_prob\<close>, where \<open>max_rate - min_rate\<close>
  is a subtraction of \<open>long\<close> and the rest is \<open>double\<close> arithmetic.
\<close>

definition new_prob :: "args \<Rightarrow> double \<Rightarrow> undefined_behaviour + u32" where
  "new_prob a pps =
     (if double_gt pps (double_of_long (min_rate a))
      then
        (if double_ge pps (double_of_long (max_rate a)) then Inr (ucast (max_prob a))
         else
           (case long_sub (max_rate a) (min_rate a) of
              Inl ub \<Rightarrow> Inl ub
            | Inr d \<Rightarrow>
                double_to_u32
                  (double_mul
                     (double_div (double_sub pps (double_of_long (min_rate a))) (double_of_long d))
                     (double_of_long (max_prob a)))))
      else Inr 0)"

text \<open>
  What one iteration observes after its \<open>sleep\<close>: a failed lookup, or the record
  the lookup copied out together with the time \<open>get_time_ns()\<close> then returns.
\<close>

datatype tick_obs = Lookup_failed | Lookup_ok state u64

text \<open>
  One iteration of the loop. The result is the baseline after the iteration and the
  record passed to \<open>bpf_map_update_elem\<close>, if the iteration gets that far (a failed
  lookup is the \<open>continue\<close>). The return code of the update is not looked at.
\<close>

fun tick :: "args \<Rightarrow> loop_state \<Rightarrow> tick_obs \<Rightarrow> undefined_behaviour + loop_state \<times> state option" where
  "tick a ls Lookup_failed = Inr (ls, None)"
| "tick a ls (Lookup_ok current_state current_time_ns) =
     (let time_diff_ns = current_time_ns - last_time_ns ls;
          count_diff = packet_count current_state - last_packet_count ls;
          ls' = \<lparr>last_time_ns = current_time_ns,
                 last_packet_count = packet_count current_state\<rparr>
      in case new_prob a (pps_of count_diff time_diff_ns) of
           Inl ub \<Rightarrow> Inl ub
         | Inr p \<Rightarrow> Inr (ls', Some (current_state\<lparr>drop_probability := p\<rparr>)))"

text \<open>
  The loop over the observations of its iterations, from a baseline: the records it
  writes, in order, and how the observed part of the run ends, with the baseline
  reached or with undefined behaviour in an iteration (nothing is said about what
  the process does from there on, and the model stops). The source's loop has no
  exit; a list of observations is a prefix of its run.
\<close>

fun dynamic_loop ::
  "args \<Rightarrow> loop_state \<Rightarrow> tick_obs list \<Rightarrow> state list \<times> (undefined_behaviour + loop_state)" where
  "dynamic_loop a ls [] = ([], Inr ls)"
| "dynamic_loop a ls (ob # obs) =
     (case tick a ls ob of
        Inl ub \<Rightarrow> ([], Inl ub)
      | Inr (ls', w) \<Rightarrow>
          (case w of
             None \<Rightarrow> dynamic_loop a ls' obs
           | Some s \<Rightarrow> (s # fst (dynamic_loop a ls' obs), snd (dynamic_loop a ls' obs))))"

text \<open>The baseline at the entry of the loop: the time of entry and a count of 0.\<close>

definition initial_loop_state :: "u64 \<Rightarrow> loop_state" where
  "initial_loop_state t0 = \<lparr>last_time_ns = t0, last_packet_count = 0\<rparr>"

subsection \<open>A whole run\<close>

text \<open>The records that a sequence of events stores in the map.\<close>

fun updates_of :: "event list \<Rightarrow> state list" where
  "updates_of [] = []"
| "updates_of (Map_update k v # evs) = v # updates_of evs"
| "updates_of (_ # evs) = updates_of evs"

text \<open>
  Every record a run of \<open>main\<close> writes to the map, in order: the run starts with the
  given options and environment and, if it reaches the loop of dynamic mode, enters
  it at time \<open>t0\<close> and makes the observations \<open>obs\<close>.
\<close>

definition main_writes ::
  "cli_option list \<Rightarrow> bool \<Rightarrow> env \<Rightarrow> u64 \<Rightarrow> tick_obs list \<Rightarrow> state list" where
  "main_writes opts have_ifname e t0 obs =
     (case main_startup opts have_ifname e of
        (evs, Dynamic_loop) \<Rightarrow>
          (case parse_options opts initial_args of
             Inl _ \<Rightarrow> updates_of evs
           | Inr a \<Rightarrow> updates_of evs @ fst (dynamic_loop a (initial_loop_state t0) obs))
      | (evs, _) \<Rightarrow> updates_of evs)"

subsection \<open>The mapping from rate to probability as the specification words it\<close>

text \<open>
  The clamped piecewise-linear function of the specification, in exact arithmetic:
  0 up to \<open>min_rate\<close>, \<open>max_probability\<close> from \<open>max_rate\<close> on, and in between the floor
  of \<open>(pps - min_rate) / (max_rate - min_rate) * max_probability\<close>.
\<close>

definition spec_probability :: "int \<Rightarrow> int \<Rightarrow> int \<Rightarrow> rat \<Rightarrow> int" where
  "spec_probability min_r max_r max_p pps =
     (if pps \<le> of_int min_r then 0
      else if pps < of_int max_r
      then \<lfloor>(pps - of_int min_r) / (of_int max_r - of_int min_r) * of_int max_p\<rfloor>
      else max_p)"

section \<open>The kernel program: counters and verdict\<close>

text \<open>
  \<^bold>\<open>C10.\<close> When the lookup in \<open>state_map\<close> fails, \<open>handle_packet\<close> accepts the packet
  (\<open>TC_ACT_OK\<close>), prints nothing and returns the map as it was: no counter is
  incremented.
\<close>

theorem handle_packet_lookup_fails:
  assumes "m 0 = None"
  shows "handle_packet prandom direction m = (TC_ACT_OK, m, [])"
  using assms by (simp add: handle_packet_def)

theorem handle_packet_lookup_fails_witness:
  "Map.empty (0 :: u32) = (None :: state option)
   \<and> handle_packet 7 1 Map.empty = (TC_ACT_OK, Map.empty, [])"
proof -
  have h: "Map.empty (0 :: u32) = (None :: state option)" by simp
  show ?thesis
    using h handle_packet_lookup_fails [where m = Map.empty and prandom = 7 and direction = 1]
    by simp
qed

text \<open>
  The array map: it is one from its creation on, and neither an update under the key
  0 nor an invocation of \<open>handle_packet\<close> makes it anything else. In an array map the
  lookup of the key 0 succeeds.
\<close>

lemma array_map_created: "array_map state_map_created"
  by (simp add: array_map_def state_map_created_def)

lemma array_map_update:
  "array_map m \<Longrightarrow> key < max_entries \<Longrightarrow> array_map (bpf_map_update_elem m key v)"
  by (auto simp: array_map_def bpf_map_update_elem_def)

lemma array_map_lookup: "array_map m \<Longrightarrow> \<exists>s. m 0 = Some s"
  by (auto simp: array_map_def max_entries_def)

lemma array_map_handle_packet:
  "array_map m \<Longrightarrow> array_map (fst (snd (handle_packet prandom direction m)))"
  by (auto simp: array_map_def handle_packet_def Let_def max_entries_def split: option.splits)

text \<open>
  \<^bold>\<open>C6.\<close> \<open>state_map\<close> is an array map with one entry, so the lookup of every
  invocation succeeds. Every invocation of \<open>handle_packet\<close> adds exactly one to
  \<open>packet_count\<close> (modulo \<open>2\<^sup>6\<^sup>4\<close>, as \<open>__sync_fetch_and_add\<close> does) whatever the verdict,
  adds one to \<open>dropped_count\<close> if and only if the verdict is \<open>TC_ACT_SHOT\<close>, changes
  nothing else in the map, and leaves an array map behind for the next invocation.
\<close>

theorem handle_packet_counts:
  assumes "array_map m"
  shows "\<exists>s s'. m 0 = Some s
     \<and> fst (snd (handle_packet prandom direction m)) = m(0 \<mapsto> s')
     \<and> packet_count s' = packet_count s + 1
     \<and> dropped_count s'
         = (if fst (handle_packet prandom direction m) = TC_ACT_SHOT then dropped_count s + 1
            else dropped_count s)
     \<and> drop_probability s' = drop_probability s
     \<and> array_map (fst (snd (handle_packet prandom direction m)))"
proof -
  obtain s where s: "m 0 = Some s" using assms array_map_lookup by blast
  have "array_map (fst (snd (handle_packet prandom direction m)))"
    using assms by (rule array_map_handle_packet)
  then show ?thesis using s by (auto simp: handle_packet_def Let_def)
qed

theorem handle_packet_counts_witness:
  "array_map (bpf_map_update_elem state_map_created 0
       \<lparr>packet_count = 5, dropped_count = 2, drop_probability = 50\<rparr>)
   \<and> (\<exists>s'. fst (snd (handle_packet 7 1 (bpf_map_update_elem state_map_created 0
               \<lparr>packet_count = 5, dropped_count = 2, drop_probability = 50\<rparr>)))
            = (bpf_map_update_elem state_map_created 0
                 \<lparr>packet_count = 5, dropped_count = 2, drop_probability = 50\<rparr>)(0 \<mapsto> s')
        \<and> packet_count s' = 6 \<and> dropped_count s' = 3)"
proof -
  have h: "array_map (bpf_map_update_elem state_map_created 0
       \<lparr>packet_count = 5, dropped_count = 2, drop_probability = 50\<rparr>)"
    by (auto simp: array_map_def bpf_map_update_elem_def state_map_created_def max_entries_def)
  have v: "fst (handle_packet 7 1 (bpf_map_update_elem state_map_created 0
               \<lparr>packet_count = 5, dropped_count = 2, drop_probability = 50\<rparr>)) = TC_ACT_SHOT"
    by (simp add: handle_packet_def bpf_map_update_elem_def)
  show ?thesis
    using h handle_packet_counts
      [where m = "bpf_map_update_elem state_map_created 0
               \<lparr>packet_count = 5, dropped_count = 2, drop_probability = 50\<rparr>"
         and prandom = 7 and direction = 1, OF h]
    unfolding v by (auto simp: bpf_map_update_elem_def)
qed

subsection \<open>The draw\<close>

text \<open>
  The draw is the remainder of a 32-bit number modulo 100. Among the \<open>2\<^sup>3\<^sup>2\<close> numbers
  each remainder below 96 occurs 42949673 times and each of 96, 97, 98 and 99 occurs
  42949672 times, since \<open>2\<^sup>3\<^sup>2 = 42949672 \<cdot> 100 + 96\<close>.
\<close>

lemma residue_class:
  fixes r :: nat
  assumes "r < 100"
  shows "{n. n < 4294967296 \<and> n mod 100 = r}
     = (\<lambda>q. 100 * q + r) ` {..<(if r < 96 then 42949673 else 42949672)}"
proof (intro set_eqI iffI)
  fix n assume "n \<in> {n. n < 4294967296 \<and> n mod 100 = r}"
  then have n: "n < 4294967296" "n mod 100 = r" by simp_all
  have e: "n = 100 * (n div 100) + r" using n(2) by presburger
  have "n div 100 < (if r < 96 then 42949673 else 42949672)" using n e by (simp split: if_splits)
  then show "n \<in> (\<lambda>q. 100 * q + r) ` {..<(if r < 96 then 42949673 else 42949672)}"
    using e by blast
next
  fix n assume "n \<in> (\<lambda>q. 100 * q + r) ` {..<(if r < 96 then 42949673 else 42949672)}"
  then obtain q where q: "n = 100 * q + r" "q < (if r < 96 then 42949673 else 42949672)" by blast
  have "n mod 100 = r" using q(1) assms by simp
  moreover have "n < 4294967296" using q assms by (simp split: if_splits)
  ultimately show "n \<in> {n. n < 4294967296 \<and> n mod 100 = r}" by simp
qed

lemma card_residue_class:
  fixes r :: nat
  assumes "r < 100"
  shows "card {n. n < 4294967296 \<and> n mod 100 = r} = (if r < 96 then 42949673 else 42949672)"
proof -
  have "inj_on (\<lambda>q :: nat. 100 * q + r) {..<(if r < 96 then 42949673 else 42949672)}"
    by (rule inj_onI) simp
  then show ?thesis
    unfolding residue_class [OF assms] by (simp add: card_image)
qed

lemma card_below:
  fixes p :: nat
  assumes "p \<le> 100"
  shows "card {n. n < 4294967296 \<and> n mod 100 < p} = 42949672 * p + min p 96"
  using assms
proof (induction p)
  case 0
  then show ?case by simp
next
  case (Suc p)
  have p: "p < 100" using Suc.prems by simp
  have fin: "finite {n :: nat. n < 4294967296 \<and> n mod 100 < p}"
    "finite {n :: nat. n < 4294967296 \<and> n mod 100 = p}" by simp_all
  have split: "{n :: nat. n < 4294967296 \<and> n mod 100 < Suc p}
      = {n. n < 4294967296 \<and> n mod 100 < p} \<union> {n. n < 4294967296 \<and> n mod 100 = p}"
    by auto
  have disj: "{n :: nat. n < 4294967296 \<and> n mod 100 < p} \<inter> {n. n < 4294967296 \<and> n mod 100 = p} = {}"
    by auto
  have "card {n :: nat. n < 4294967296 \<and> n mod 100 < Suc p}
      = card {n :: nat. n < 4294967296 \<and> n mod 100 < p} + card {n :: nat. n < 4294967296 \<and> n mod 100 = p}"
    unfolding split using fin disj by (rule card_Un_disjoint)
  also have "\<dots> = (42949672 * p + min p 96) + (if p < 96 then 42949673 else 42949672)"
    using Suc.IH p card_residue_class [OF p] by simp
  also have "\<dots> = 42949672 * Suc p + min (Suc p) 96" by (simp add: min_def)
  finally show ?case .
qed

lemma card_u32:
  "card {x :: u32. P (unat x)} = card {n. n < 4294967296 \<and> P n}"
proof -
  have "unat ` {x :: u32. P (unat x)} = {n. n < 4294967296 \<and> P n}"
  proof (intro set_eqI iffI)
    fix n assume "n \<in> unat ` {x :: u32. P (unat x)}"
    then obtain x :: u32 where "n = unat x" "P (unat x)" by blast
    moreover have "unat x < 2 ^ 32" using unsigned_less [of x] by simp
    ultimately show "n \<in> {n. n < 4294967296 \<and> P n}" by simp
  next
    fix n assume "n \<in> {n. n < 4294967296 \<and> P n}"
    then have n: "n < 4294967296" "P n" by simp_all
    have "unat (word_of_nat n :: u32) = n" using n(1) by (simp add: unsigned_of_nat take_bit_nat_eq_self)
    then show "n \<in> unat ` {x :: u32. P (unat x)}" using n(2) by (metis (mono_tags) imageI mem_Collect_eq)
  qed
  moreover have "inj_on unat {x :: u32. P (unat x)}" by (rule inj_onI) (simp add: word_unat_eq_iff)
  ultimately show ?thesis by (metis card_image)
qed

lemma draw_unat: "unat ((prandom :: u32) mod 100) = unat prandom mod 100"
  by (simp add: unat_mod)

lemma card_draw:
  assumes "r < 100"
  shows "card {prandom :: u32. unat (prandom mod 100) = r} = (if r < 96 then 42949673 else 42949672)"
  unfolding draw_unat using card_u32 [of "\<lambda>n. n mod 100 = r"] card_residue_class [OF assms] by simp

lemma shot_iff:
  assumes "m 0 = Some s"
  shows "fst (handle_packet prandom direction m) = TC_ACT_SHOT
     \<longleftrightarrow> unat prandom mod 100 < unat (drop_probability s)"
  using assms by (auto simp: handle_packet_def Let_def word_less_nat_alt draw_unat)

lemma card_shot:
  assumes "m 0 = Some s"
  shows "card {prandom. fst (handle_packet prandom direction m) = TC_ACT_SHOT}
     = 42949672 * min (unat (drop_probability s)) 100 + min (unat (drop_probability s)) 96"
proof -
  define p where "p = unat (drop_probability s)"
  have "\<And>n :: nat. n mod 100 < p \<longleftrightarrow> n mod 100 < min p 100" by simp
  then have "{n :: nat. n < 4294967296 \<and> n mod 100 < p} = {n. n < 4294967296 \<and> n mod 100 < min p 100}"
    by presburger
  then have "card {n :: nat. n < 4294967296 \<and> n mod 100 < p} = 42949672 * min p 100 + min (min p 100) 96"
    using card_below [of "min p 100"] by simp
  moreover have "min (min p 100) 96 = min p 96" by simp
  ultimately show ?thesis
    unfolding shot_iff [where m = m and s = s, OF assms] p_def [symmetric]
    using card_u32 [of "\<lambda>n. n mod 100 < p"] by simp
qed

text \<open>
  \<^bold>\<open>C7.\<close> The draw is \<open>bpf_get_prandom_u32() % 100\<close>, a number below 100. When the
  lookup succeeds the verdict is \<open>TC_ACT_SHOT\<close> exactly when the draw is strictly below
  the \<open>drop_probability\<close> of the entry, and \<open>TC_ACT_OK\<close> otherwise; so a probability of
  0 never drops and a probability of 100 always drops. The draw is not uniform on
  \<open>[0,100)\<close>, even when \<open>bpf_get_prandom_u32()\<close> is uniform on the 32-bit numbers: each
  of the draws 0 to 95 comes from 42949673 of them and each of the draws 96 to 99 from
  42949672. With the probability \<open>p\<close> the packet is dropped for
  \<open>42949672 \<cdot> min p 100 + min p 96\<close> of the \<open>2\<^sup>3\<^sup>2\<close> numbers.
\<close>

theorem handle_packet_verdict:
  assumes "m 0 = Some s"
  shows "unat (prandom mod 100) < 100
     \<and> (fst (handle_packet prandom direction m) = TC_ACT_SHOT
          \<longleftrightarrow> unat (prandom mod 100) < unat (drop_probability s))
     \<and> (fst (handle_packet prandom direction m) \<noteq> TC_ACT_SHOT
          \<longleftrightarrow> fst (handle_packet prandom direction m) = TC_ACT_OK)
     \<and> (drop_probability s = 0 \<longrightarrow> fst (handle_packet prandom direction m) = TC_ACT_OK)
     \<and> (drop_probability s = 100 \<longrightarrow> fst (handle_packet prandom direction m) = TC_ACT_SHOT)
     \<and> (\<forall>r < 100. card {x :: u32. unat (x mod 100) = r}
           = (if r < 96 then 42949673 else 42949672))
     \<and> card {x. fst (handle_packet x direction m) = TC_ACT_SHOT}
         = 42949672 * min (unat (drop_probability s)) 100 + min (unat (drop_probability s)) 96"
proof -
  have lt: "prandom mod 100 < 100"
    by (rule word_mod_less_divisor) simp
  then have "unat (prandom mod 100) < unat (100 :: u32)"
    by (simp only: word_less_nat_alt)
  then have b: "unat (prandom mod 100) < 100" by simp
  have v: "unat (prandom mod 100) < 100
     \<and> (fst (handle_packet prandom direction m) = TC_ACT_SHOT
          \<longleftrightarrow> unat (prandom mod 100) < unat (drop_probability s))
     \<and> (fst (handle_packet prandom direction m) \<noteq> TC_ACT_SHOT
          \<longleftrightarrow> fst (handle_packet prandom direction m) = TC_ACT_OK)
     \<and> (drop_probability s = 0 \<longrightarrow> fst (handle_packet prandom direction m) = TC_ACT_OK)
     \<and> (drop_probability s = 100 \<longrightarrow> fst (handle_packet prandom direction m) = TC_ACT_SHOT)"
    using assms b lt
    by (auto simp: handle_packet_def Let_def word_less_nat_alt)
  have c: "\<forall>r < 100. card {x :: u32. unat (x mod 100) = r}
           = (if r < 96 then 42949673 else 42949672)"
    using card_draw by blast
  show ?thesis using v c card_shot [where m = m and s = s, OF assms] by blast
qed

theorem handle_packet_verdict_witness:
  "[0 \<mapsto> \<lparr>packet_count = 0, dropped_count = 0, drop_probability = 100\<rparr>] (0 :: u32)
     = Some \<lparr>packet_count = 0, dropped_count = 0, drop_probability = 100\<rparr>
   \<and> fst (handle_packet 4294967295 2
            [0 \<mapsto> \<lparr>packet_count = 0, dropped_count = 0, drop_probability = 100\<rparr>])
      = TC_ACT_SHOT
   \<and> card {x. fst (handle_packet x 2
            [0 \<mapsto> \<lparr>packet_count = 0, dropped_count = 0, drop_probability = 100\<rparr>])
          = TC_ACT_SHOT} = 4294967296"
proof -
  have h: "[0 \<mapsto> \<lparr>packet_count = 0, dropped_count = 0, drop_probability = 100\<rparr>] (0 :: u32)
     = Some \<lparr>packet_count = 0, dropped_count = 0, drop_probability = 100\<rparr>"
    by simp
  show ?thesis
    using h handle_packet_verdict
      [where m = "[0 \<mapsto> \<lparr>packet_count = 0, dropped_count = 0, drop_probability = 100\<rparr>]"
         and s = "\<lparr>packet_count = 0, dropped_count = 0, drop_probability = 100\<rparr>"
         and prandom = 4294967295 and direction = 2]
    by simp
qed

text \<open>
  With the probability 50 more than half of the 32-bit numbers drop the packet, and
  the draw 0 comes from one number more than the draw 99.
\<close>

theorem draw_not_uniform:
  "card {x. fst (handle_packet x 1
       [0 \<mapsto> \<lparr>packet_count = 0, dropped_count = 0, drop_probability = 50\<rparr>]) = TC_ACT_SHOT}
     = 2147483650
   \<and> card {x. fst (handle_packet x 1
       [0 \<mapsto> \<lparr>packet_count = 0, dropped_count = 0, drop_probability = 50\<rparr>]) = TC_ACT_OK}
     = 2147483646
   \<and> card {x :: u32. unat (x mod 100) = 0} = 42949673
   \<and> card {x :: u32. unat (x mod 100) = 99} = 42949672"
proof -
  let ?m = "[0 \<mapsto> \<lparr>packet_count = 0, dropped_count = 0, drop_probability = 50\<rparr>] :: state_map"
  have s: "card {x. fst (handle_packet x 1 ?m) = TC_ACT_SHOT} = 2147483650"
    using card_shot [where m = ?m and direction = 1
        and s = "\<lparr>packet_count = 0, dropped_count = 0, drop_probability = 50\<rparr>"]
    by simp
  have "{x. fst (handle_packet x 1 ?m) = TC_ACT_OK}
      = UNIV - {x. fst (handle_packet x 1 ?m) = TC_ACT_SHOT}"
    by (auto simp: handle_packet_def Let_def)
  moreover have "card (UNIV - {x. fst (handle_packet x 1 ?m) = TC_ACT_SHOT})
      = card (UNIV :: u32 set) - card {x. fst (handle_packet x 1 ?m) = TC_ACT_SHOT}"
    by (rule card_Diff_subset) simp_all
  ultimately have "card {x. fst (handle_packet x 1 ?m) = TC_ACT_OK}
      = card (UNIV :: u32 set) - card {x. fst (handle_packet x 1 ?m) = TC_ACT_SHOT}"
    by simp
  then have o: "card {x. fst (handle_packet x 1 ?m) = TC_ACT_OK} = 2147483646"
    unfolding s by (simp add: card_word)
  show ?thesis using s o card_draw [of 0] card_draw [of 99] by simp
qed

section \<open>The loader: validation, exit codes and writes\<close>

lemma parse_options_mode:
  "\<forall>s. Opt_mode s \<notin> set opts \<Longrightarrow> parse_options opts a = Inr a' \<Longrightarrow> mode a' = mode a"
  by (induction opts a rule: parse_options.induct) (auto split: if_splits)

lemma parse_options_prob:
  "\<forall>v. Opt_p v \<notin> set opts \<Longrightarrow> parse_options opts a = Inr a' \<Longrightarrow> prob a' = prob a"
  by (induction opts a rule: parse_options.induct) (auto split: if_splits)

lemma parse_options_prints:
  "parse_options opts a = Inl evs \<Longrightarrow> evs \<noteq> [] \<and> set evs \<subseteq> insert Usage (range Report)"
  by (induction opts a rule: parse_options.induct) (auto split: if_splits)

lemma validate_prints:
  "validate a have_ifname = Inl evs \<Longrightarrow> evs \<noteq> [] \<and> set evs \<subseteq> insert Usage (range Report)"
  by (auto simp: validate_def split: if_splits)

lemma validate_rejects:
  assumes "mode a = None
     \<or> (mode a = Some MODE_FIXED \<and> (prob a = - 1 \<or> sint (prob a) < 0 \<or> 100 < sint (prob a)))
     \<or> (mode a = Some MODE_DYNAMIC \<and> (sint (max_prob a) < 0 \<or> 100 < sint (max_prob a)))"
  shows "\<exists>evs. validate a have_ifname = Inl evs"
  using assms by (auto simp: validate_def)

text \<open>
  \<^bold>\<open>C9.\<close> An invocation without \<open>--mode\<close>, or whose options select fixed mode with
  \<open>--prob\<close> absent or outside \<open>[0,100]\<close>, or select dynamic mode with \<open>--max-prob\<close>
  outside \<open>[0,100]\<close>, exits with code 1 after printing to \<open>stderr\<close> (a message, the
  usage text, or both) and nothing else: no object is opened, no hook created, no
  program attached.
\<close>

theorem validation_precedes_attachment:
  assumes "(\<forall>s. Opt_mode s \<notin> set opts)
     \<or> (\<exists>a. parse_options opts initial_args = Inr a
          \<and> ((mode a = Some MODE_FIXED
                \<and> ((\<forall>v. Opt_p v \<notin> set opts) \<or> sint (prob a) < 0 \<or> 100 < sint (prob a)))
              \<or> (mode a = Some MODE_DYNAMIC
                \<and> (sint (max_prob a) < 0 \<or> 100 < sint (max_prob a)))))"
  shows "snd (main_startup opts have_ifname e) = Exit 1
     \<and> fst (main_startup opts have_ifname e) \<noteq> []
     \<and> set (fst (main_startup opts have_ifname e)) \<subseteq> insert Usage (range Report)"
proof (cases "parse_options opts initial_args")
  case (Inl evs)
  then show ?thesis using parse_options_prints [OF Inl] by (simp add: main_startup_def)
next
  case (Inr a)
  have "mode a = None
     \<or> (mode a = Some MODE_FIXED \<and> (prob a = - 1 \<or> sint (prob a) < 0 \<or> 100 < sint (prob a)))
     \<or> (mode a = Some MODE_DYNAMIC \<and> (sint (max_prob a) < 0 \<or> 100 < sint (max_prob a)))"
    using assms
  proof (elim disjE exE conjE)
    assume "\<forall>s. Opt_mode s \<notin> set opts"
    then have "mode a = mode initial_args" using Inr by (rule parse_options_mode)
    then show ?thesis by (simp add: initial_args_def)
  next
    fix a'
    assume "parse_options opts initial_args = Inr a'" "mode a' = Some MODE_FIXED"
      "\<forall>v. Opt_p v \<notin> set opts"
    then have "a' = a" "prob a = prob initial_args"
      using Inr parse_options_prob [of opts initial_args a] by simp_all
    then show ?thesis using \<open>mode a' = Some MODE_FIXED\<close> by (simp add: initial_args_def)
  qed (use Inr in auto)
  then obtain evs where v: "validate a have_ifname = Inl evs"
    using validate_rejects by blast
  show ?thesis using Inr v validate_prints [OF v] by (simp add: main_startup_def)
qed

theorem validation_precedes_attachment_witness:
  "parse_options [Opt_mode ''fixed'', Opt_p 150] initial_args
     = Inr (initial_args\<lparr>mode := Some MODE_FIXED, prob := 150\<rparr>)
   \<and> 100 < sint (prob (initial_args\<lparr>mode := Some MODE_FIXED, prob := 150\<rparr>))
   \<and> main_startup [Opt_mode ''fixed'', Opt_p 150] True
        \<lparr>ifindex = 2, open_ok = True, load_ok = True, ing_prog_found = True,
         eg_prog_found = True, hook_create_err = 0, ing_attach_err = 0, eg_attach_err = 0,
         map_fd = 3, fixed_update_ret = 0\<rparr> = ([Report Msg_prob_range], Exit 1)"
proof -
  have p: "parse_options [Opt_mode ''fixed'', Opt_p 150] initial_args
     = Inr (initial_args\<lparr>mode := Some MODE_FIXED, prob := 150\<rparr>)"
    by simp
  have r: "100 < sint (prob (initial_args\<lparr>mode := Some MODE_FIXED, prob := 150\<rparr>))"
    by simp
  have m: "mode (initial_args\<lparr>mode := Some MODE_FIXED, prob := 150\<rparr>) = Some MODE_FIXED"
    by simp
  have "snd (main_startup [Opt_mode ''fixed'', Opt_p 150] True
        \<lparr>ifindex = 2, open_ok = True, load_ok = True, ing_prog_found = True,
         eg_prog_found = True, hook_create_err = 0, ing_attach_err = 0, eg_attach_err = 0,
         map_fd = 3, fixed_update_ret = 0\<rparr>) = Exit 1"
    using validation_precedes_attachment [of "[Opt_mode ''fixed'', Opt_p 150]"] p r m by blast
  moreover have "fst (main_startup [Opt_mode ''fixed'', Opt_p 150] True
        \<lparr>ifindex = 2, open_ok = True, load_ok = True, ing_prog_found = True,
         eg_prog_found = True, hook_create_err = 0, ing_attach_err = 0, eg_attach_err = 0,
         map_fd = 3, fixed_update_ret = 0\<rparr>) = [Report Msg_prob_range]"
    by (simp add: main_startup_def validate_def initial_args_def)
  ultimately show ?thesis using p r by (simp add: prod_eq_iff)
qed

text \<open>
  \<^bold>\<open>C2.\<close> A failure to attach the ingress program is reported and the hook is
  destroyed, but the process then exits with code 0: \<open>cleanup(0)\<close> calls \<open>exit(0)\<close>
  and the \<open>return 1\<close> written after it is never reached. The same holds for the other
  paths through \<open>cleanup(0)\<close>: a failed egress attachment, a map that is not found,
  and a failed update in fixed mode.
\<close>

theorem attach_failure_exits_0:
  "main_startup [Opt_mode ''fixed'', Opt_p 37] True
     \<lparr>ifindex = 2, open_ok = True, load_ok = True, ing_prog_found = True,
      eg_prog_found = True, hook_create_err = 0, ing_attach_err = - 1, eg_attach_err = 0,
      map_fd = 3, fixed_update_ret = 0\<rparr>
   = ([Bpf_object_open, Bpf_object_load, Tc_hook_create, Tc_attach_ingress,
       Report Msg_attach_ingress, Tc_hook_destroy], Exit 0)"
  by (simp add: main_startup_def validate_def initial_args_def attach_and_run_def cleanup_def
      EEXIST_def)

section \<open>The loop of dynamic mode: a failed lookup\<close>

text \<open>
  \<^bold>\<open>C8.\<close> An iteration whose lookup fails writes nothing and leaves the baseline as
  it was; it is not an error, and the loop goes on with the following iterations
  exactly as if the failed one had not taken place.
\<close>

theorem tick_lookup_failed:
  "tick a ls Lookup_failed = Inr (ls, None)
   \<and> dynamic_loop a ls (Lookup_failed # obs) = dynamic_loop a ls obs"
  by simp

section \<open>Properties of the rounding\<close>

subsection \<open>The binary exponent and the rounding of integers\<close>

lemma ilog2_lower:
  assumes "0 < q"
  shows "2 powi ilog2 q \<le> q"
proof (cases "1 \<le> q")
  case True
  define n where "n = \<lfloor>q\<rfloor>"
  have n: "0 < n" using True by (simp add: n_def)
  have "bitlen n \<ge> 1" using n by (simp add: bitlen_ge_iff_power)
  then have e: "(2::rat) powi (bitlen n - 1) = 2 ^ nat (bitlen n - 1)"
    by (simp add: power_int_nonneg_exp)
  have "(2::int) ^ nat (bitlen n - 1) \<le> n" using bitlen_bounds [OF n] by simp
  then have "(2::rat) ^ nat (bitlen n - 1) \<le> of_int n" by simp
  moreover have "of_int n \<le> q" by (simp add: n_def)
  ultimately have "2 powi (bitlen n - 1) \<le> q" unfolding e by linarith
  moreover have "ilog2 q = bitlen n - 1" using True by (simp add: ilog2_def n_def)
  ultimately show ?thesis by simp
next
  case False
  define c where "c = \<lceil>1 / q\<rceil>"
  define k where "k = bitlen (c - 1)"
  have r: "1 < 1 / q" using False assms by simp
  have c: "0 < c - 1" using r by (simp add: c_def less_ceiling_iff)
  have k0: "0 \<le> k" by (simp add: k_def bitlen_nonneg)
  have "c - 1 < 2 ^ nat k" using bitlen_bounds [OF c] by (simp add: k_def)
  then have "c \<le> 2 ^ nat k" by simp
  then have "(of_int c :: rat) \<le> 2 ^ nat k" by simp
  moreover have "1 / q \<le> of_int c" by (simp add: c_def)
  ultimately have "1 / q \<le> 2 ^ nat k" by linarith
  then have "1 / 2 ^ nat k \<le> q" using assms
    by (simp add: field_simps)
  moreover have "(2::rat) powi (- k) = 1 / 2 ^ nat k" using k0
    by (simp add: power_int_minus_divide power_int_nonneg_exp)
  ultimately have "2 powi (- k) \<le> q" by simp
  moreover have "ilog2 q = - k" using False by (simp add: ilog2_def c_def k_def)
  ultimately show ?thesis by simp
qed

lemma ilog2_upper:
  assumes "0 < q"
  shows "q < 2 powi (ilog2 q + 1)"
proof (cases "1 \<le> q")
  case True
  define n where "n = \<lfloor>q\<rfloor>"
  have n: "0 < n" using True by (simp add: n_def)
  have b: "bitlen n \<ge> 1" using n by (simp add: bitlen_ge_iff_power)
  then have e: "(2::rat) powi bitlen n = 2 ^ nat (bitlen n)"
    by (simp add: power_int_nonneg_exp)
  have "n < 2 ^ nat (bitlen n)" using bitlen_bounds [OF n] by simp
  then have "n + 1 \<le> 2 ^ nat (bitlen n)" by simp
  then have "(of_int n :: rat) + 1 \<le> 2 ^ nat (bitlen n)"
    by (metis of_int_1 of_int_add of_int_le_numeral_power_cancel_iff)
  moreover have "q < of_int n + 1" unfolding n_def by linarith
  ultimately have "q < 2 ^ nat (bitlen n)" by linarith
  then have "q < 2 powi bitlen n" by (simp add: e)
  moreover have "ilog2 q + 1 = bitlen n" using True by (simp add: ilog2_def n_def)
  ultimately show ?thesis by simp
next
  case False
  define c where "c = \<lceil>1 / q\<rceil>"
  define k where "k = bitlen (c - 1)"
  have r: "1 < 1 / q" using False assms by simp
  have c: "0 < c - 1" using r by (simp add: c_def less_ceiling_iff)
  have k1: "1 \<le> k" using c by (simp add: k_def bitlen_ge_iff_power)
  have "2 ^ nat (k - 1) \<le> c - 1" using bitlen_bounds [OF c] by (simp add: k_def)
  then have "(2::rat) ^ nat (k - 1) \<le> of_int (c - 1)"
    by (simp only: numeral_power_le_of_int_cancel_iff)
  moreover have "of_int (c - 1) < 1 / q" unfolding c_def by linarith
  ultimately have "2 ^ nat (k - 1) < 1 / q" by linarith
  then have "q < 1 / 2 ^ nat (k - 1)" using assms
    by (simp add: field_simps)
  moreover have "(2::rat) powi (- k + 1) = 1 / 2 ^ nat (k - 1)"
  proof -
    have "(2::rat) powi (- k + 1) = 2 powi (- (k - 1))" by simp
    also have "\<dots> = 1 / 2 powi (k - 1)" by (rule power_int_minus_divide)
    also have "\<dots> = 1 / 2 ^ nat (k - 1)" using k1 by (simp add: power_int_nonneg_exp)
    finally show ?thesis .
  qed
  ultimately have "q < 2 powi (- k + 1)" by simp
  moreover have "ilog2 q = - k" using False by (simp add: ilog2_def c_def k_def)
  ultimately show ?thesis by simp
qed

lemma pow2_strict_mono: "a < b \<Longrightarrow> (2::rat) powi a < 2 powi b"
  by (rule power_int_strict_increasing) simp_all

lemma pow2_mono: "a \<le> b \<Longrightarrow> (2::rat) powi a \<le> 2 powi b"
  by (rule power_int_increasing) simp_all

lemma pow2_less_cancel: "(2::rat) powi a < 2 powi b \<Longrightarrow> a < b"
  using pow2_mono [of b a] by (cases "a < b") auto

lemma ilog2_unique:
  assumes "0 < q" and "2 powi e \<le> q" and "q < 2 powi (e + 1)"
  shows "ilog2 q = e"
proof -
  have "2 powi e < (2::rat) powi (ilog2 q + 1)"
    using assms(2) ilog2_upper [OF assms(1)] by simp
  then have a: "e < ilog2 q + 1" by (rule pow2_less_cancel)
  have "2 powi ilog2 q < (2::rat) powi (e + 1)"
    using assms(3) ilog2_lower [OF assms(1)] by simp
  then have "ilog2 q < e + 1" by (rule pow2_less_cancel)
  with a show ?thesis by simp
qed

lemma ilog2_mono:
  assumes "0 < p" and "p \<le> q"
  shows "ilog2 p \<le> ilog2 q"
proof -
  have "2 powi ilog2 p < (2::rat) powi (ilog2 q + 1)"
    using ilog2_lower [OF assms(1)] ilog2_upper [of q] assms by simp
  then have "ilog2 p < ilog2 q + 1" by (rule pow2_less_cancel)
  then show ?thesis by simp
qed

lemma round_even_near: "\<bar>of_int (round_even t) - t\<bar> \<le> 1 / 2"
proof -
  have "of_int \<lfloor>t\<rfloor> \<le> t" and "t < of_int \<lfloor>t\<rfloor> + 1" by linarith+
  then show ?thesis
    by (auto simp: round_even_def Let_def abs_le_iff)
qed

lemma round_even_of_int [simp]: "round_even (of_int n) = n"
  by (simp add: round_even_def)

lemma round_even_mono:
  assumes "s \<le> t"
  shows "round_even s \<le> round_even t"
proof (cases "\<lfloor>s\<rfloor> = \<lfloor>t\<rfloor>")
  case True
  then show ?thesis using assms
    by (auto simp: round_even_def Let_def)
next
  case False
  then have "\<lfloor>s\<rfloor> + 1 \<le> \<lfloor>t\<rfloor>" using floor_mono [OF assms] by simp
  moreover have "round_even s \<le> \<lfloor>s\<rfloor> + 1" by (simp add: round_even_def Let_def)
  moreover have "\<lfloor>t\<rfloor> \<le> round_even t" by (simp add: round_even_def Let_def)
  ultimately show ?thesis by simp
qed

lemma round_even_ge: "of_int n \<le> t \<Longrightarrow> n \<le> round_even t"
  using round_even_mono [of "of_int n" t] by simp

lemma round_even_le: "t \<le> of_int n \<Longrightarrow> round_even t \<le> n"
  using round_even_mono [of t "of_int n"] by simp

subsection \<open>The unit in the last place and the rounded magnitude\<close>

lemma ulp_pos [simp]: "0 < ulp q"
  by (simp add: ulp_def)

lemma ulp_nonneg [simp]: "0 \<le> ulp q"
  by (simp add: ulp_def)

lemma ulp_neq0 [simp]: "ulp q \<noteq> 0"
  by (simp add: ulp_def)

lemma round_even_0 [simp]: "round_even 0 = 0"
  using round_even_of_int [of 0] by simp

lemma round_even_nonneg: "0 \<le> t \<Longrightarrow> 0 \<le> round_even t"
  using round_even_ge [of 0 t] by simp

lemma ulp_exp_mono:
  assumes "0 < p" and "p \<le> q"
  shows "ulp_exp p \<le> ulp_exp q"
  using ilog2_mono [of p q] assms by (simp add: ulp_exp_def)

lemma ulp_mono:
  assumes "0 < p" and "p \<le> q"
  shows "ulp p \<le> ulp q"
  unfolding ulp_def using ulp_exp_mono [OF assms] by (rule pow2_mono)

lemma ulp_exp_normal:
  assumes "2 powi (- 1022) \<le> q"
  shows "ulp_exp q = ilog2 q - 52"
proof -
  have q: "0 < q" using assms by (rule less_le_trans [rotated]) simp
  have "2 powi (- 1022) < (2::rat) powi (ilog2 q + 1)"
    using assms ilog2_upper [OF q] by simp
  then have "- 1022 < ilog2 q + 1" by (rule pow2_less_cancel)
  then show ?thesis using q by (simp add: ulp_exp_def)
qed

lemma ulp_rel:
  assumes "2 powi (- 1022) \<le> q"
  shows "ulp q \<le> q * 2 powi (- 52)"
proof -
  have q: "0 < q" using assms by (rule less_le_trans [rotated]) simp
  have "ulp q = 2 powi ilog2 q * 2 powi (- 52)"
    by (simp add: ulp_def ulp_exp_normal [OF assms] power_int_diff power_int_minus_divide)
  also have "\<dots> \<le> q * 2 powi (- 52)"
    using ilog2_lower [OF q] by (intro mult_right_mono) simp_all
  finally show ?thesis .
qed

lemma round_mag_near:
  "\<bar>round_mag q - q\<bar> \<le> ulp q / 2"
proof -
  have "round_mag q - q = (of_int (round_even (q / ulp q)) - q / ulp q) * ulp q"
    by (simp add: round_mag_def algebra_simps)
  then have "\<bar>round_mag q - q\<bar> = \<bar>of_int (round_even (q / ulp q)) - q / ulp q\<bar> * ulp q"
    by (simp add: abs_mult)
  also have "\<dots> \<le> 1 / 2 * ulp q"
    by (intro mult_right_mono round_even_near) simp
  finally show ?thesis by simp
qed

lemma round_mag_nonneg: "0 \<le> q \<Longrightarrow> 0 \<le> round_mag q"
  unfolding round_mag_def
  by (intro mult_nonneg_nonneg) (simp_all add: round_even_nonneg)

lemma round_mag_exact:
  assumes "q = of_int m * ulp q"
  shows "round_mag q = q"
proof -
  have "q / ulp q = of_int m" using assms
    by (metis nonzero_mult_div_cancel_right ulp_neq0)
  then show ?thesis using assms by (simp add: round_mag_def)
qed

lemma round_mag_upper:
  assumes "0 < q"
  shows "round_mag q \<le> 2 powi (ulp_exp q + 53)"
proof -
  have "q < 2 powi (ilog2 q + 1)" by (rule ilog2_upper [OF assms])
  also have "\<dots> \<le> 2 powi (ulp_exp q + 53)"
    using assms by (intro pow2_mono) (simp add: ulp_exp_def)
  also have "\<dots> = 2 powi 53 * ulp q"
    by (simp add: ulp_def power_int_add)
  finally have "q / ulp q < 2 powi 53" by (simp add: pos_divide_less_eq)
  then have "q / ulp q \<le> of_int (2 ^ 53)" by simp
  then have "round_even (q / ulp q) \<le> 2 ^ 53" by (rule round_even_le)
  then have "(of_int (round_even (q / ulp q)) :: rat) \<le> of_int (2 ^ 53)"
    by (simp only: of_int_le_iff)
  then have "round_mag q \<le> of_int (2 ^ 53) * ulp q"
    unfolding round_mag_def by (intro mult_right_mono) simp_all
  also have "\<dots> = 2 powi (ulp_exp q + 53)"
    by (simp add: ulp_def power_int_add)
  finally show ?thesis .
qed

lemma round_mag_lower:
  assumes "2 powi (- 1022) \<le> q"
  shows "2 powi (ulp_exp q + 52) \<le> round_mag q"
proof -
  have q: "0 < q" using assms by (rule less_le_trans [rotated]) simp
  have "2 powi (ulp_exp q + 52) = (2::rat) powi ilog2 q"
    by (simp add: ulp_exp_normal [OF assms])
  also have "\<dots> \<le> q" by (rule ilog2_lower [OF q])
  finally have "2 powi (ulp_exp q + 52) \<le> q" .
  moreover have "(2::rat) powi (ulp_exp q + 52) = 2 powi 52 * ulp q"
    by (simp add: ulp_def power_int_add)
  ultimately have "2 powi 52 \<le> q / ulp q" by (simp add: pos_le_divide_eq)
  then have "of_int (2 ^ 52) \<le> q / ulp q" by simp
  then have "2 ^ 52 \<le> round_even (q / ulp q)" by (rule round_even_ge)
  then have "(of_int (2 ^ 52) :: rat) \<le> of_int (round_even (q / ulp q))"
    by (simp only: of_int_le_iff)
  then have "of_int (2 ^ 52) * ulp q \<le> round_mag q"
    unfolding round_mag_def by (intro mult_right_mono) simp_all
  moreover have "of_int (2 ^ 52) * ulp q = 2 powi (ulp_exp q + 52)"
    by (simp add: ulp_def power_int_add)
  ultimately show ?thesis by simp
qed

lemma round_mag_mono:
  assumes "0 < p" and "p \<le> q"
  shows "round_mag p \<le> round_mag q"
proof (cases "ulp_exp p = ulp_exp q")
  case True
  then have u: "ulp p = ulp q" by (simp add: ulp_def)
  have "p / ulp q \<le> q / ulp q" using assms by (simp add: divide_right_mono)
  then have "round_even (p / ulp q) \<le> round_even (q / ulp q)" by (rule round_even_mono)
  then have "(of_int (round_even (p / ulp q)) :: rat) \<le> of_int (round_even (q / ulp q))"
    by (simp only: of_int_le_iff)
  then show ?thesis unfolding round_mag_def u
    by (intro mult_right_mono) simp_all
next
  case False
  then have lt: "ulp_exp p < ulp_exp q" using ulp_exp_mono [OF assms] by simp
  have q: "0 < q" using assms by simp
  have "- 1022 - 52 \<le> ulp_exp p" by (simp add: ulp_exp_def)
  then have "- 1022 < ilog2 q" using lt q by (simp add: ulp_exp_def max_def split: if_splits)
  then have "2 powi (- 1022) \<le> (2::rat) powi ilog2 q" by (intro pow2_mono) simp
  then have n: "2 powi (- 1022) \<le> q" using ilog2_lower [OF q] by simp
  have "round_mag p \<le> 2 powi (ulp_exp p + 53)" by (rule round_mag_upper [OF assms(1)])
  also have "\<dots> \<le> 2 powi (ulp_exp q + 52)" using lt by (intro pow2_mono) simp
  also have "\<dots> \<le> round_mag q" by (rule round_mag_lower [OF n])
  finally show ?thesis .
qed

lemma round_mag_0 [simp]: "round_mag 0 = 0"
  by (simp add: round_mag_def)

lemma round_nearest_0 [simp]: "round_nearest 0 = 0"
  by (simp add: round_nearest_def)

lemma round_nearest_pos: "0 \<le> q \<Longrightarrow> round_nearest q = round_mag q"
  by (cases "q = 0") (simp_all add: round_nearest_def)

lemma round_nearest_neg: "q \<le> 0 \<Longrightarrow> round_nearest q = - round_mag (- q)"
  by (cases "q = 0") (simp_all add: round_nearest_def)

lemma round_nearest_minus: "round_nearest (- q) = - round_nearest q"
  by (simp add: round_nearest_def sgn_minus)

lemma round_nearest_nonneg: "0 \<le> q \<Longrightarrow> 0 \<le> round_nearest q"
  by (simp add: round_nearest_pos round_mag_nonneg)

lemma round_nearest_mono:
  assumes "p \<le> q"
  shows "round_nearest p \<le> round_nearest q"
proof -
  consider "0 < p" | "p \<le> 0" "0 \<le> q" | "q < 0" by linarith
  then show ?thesis
  proof cases
    case 1
    then show ?thesis using assms by (simp add: round_nearest_pos round_mag_mono)
  next
    case 2
    have "round_nearest p \<le> 0" using 2(1) by (simp add: round_nearest_neg round_mag_nonneg)
    moreover have "0 \<le> round_nearest q" using 2(2) by (rule round_nearest_nonneg)
    ultimately show ?thesis by simp
  next
    case 3
    then have "round_mag (- q) \<le> round_mag (- p)" using assms by (intro round_mag_mono) simp_all
    then show ?thesis using 3 assms by (simp add: round_nearest_neg)
  qed
qed

lemma ulp_abs [simp]: "ulp \<bar>q\<bar> = ulp q"
  by (simp add: ulp_def ulp_exp_def)

lemma round_nearest_near: "\<bar>round_nearest q - q\<bar> \<le> ulp q / 2"
proof (cases "0 \<le> q")
  case True
  then show ?thesis using round_mag_near [of q] by (simp add: round_nearest_pos)
next
  case False
  then have "round_nearest q - q = - (round_mag (- q) - (- q))"
    by (simp add: round_nearest_neg)
  then have "\<bar>round_nearest q - q\<bar> = \<bar>round_mag (- q) - (- q)\<bar>" by simp
  also have "\<dots> \<le> ulp (- q) / 2" by (rule round_mag_near)
  also have "ulp (- q) = ulp q" by (simp add: ulp_def ulp_exp_def)
  finally show ?thesis .
qed

subsection \<open>Range, grid and fixed points\<close>

lemma ilog2_less:
  assumes "0 < q" and "q < 2 powi k"
  shows "ilog2 q < k"
proof -
  have "2 powi ilog2 q < (2::rat) powi k" using ilog2_lower [OF assms(1)] assms(2) by simp
  then show ?thesis by (rule pow2_less_cancel)
qed

lemma round_mag_bound:
  assumes "0 < q" and "q < 2 powi k" and "- 1021 \<le> k"
  shows "round_mag q \<le> 2 powi k"
proof -
  have "ilog2 q < k" using assms(1,2) by (rule ilog2_less)
  then have "ulp_exp q + 53 \<le> k" using assms(1,3) by (simp add: ulp_exp_def)
  then have "2 powi (ulp_exp q + 53) \<le> (2::rat) powi k" by (rule pow2_mono)
  then show ?thesis using round_mag_upper [OF assms(1)] by simp
qed

lemma abs_round_nearest: "\<bar>round_nearest q\<bar> = round_mag \<bar>q\<bar>"
  by (cases "q = 0") (simp_all add: round_nearest_def abs_mult round_mag_nonneg)

lemma round_nearest_bound:
  assumes "\<bar>q\<bar> < 2 powi k" and "- 1021 \<le> k"
  shows "\<bar>round_nearest q\<bar> \<le> 2 powi k"
proof (cases "q = 0")
  case True
  then show ?thesis by simp
next
  case False
  then show ?thesis using round_mag_bound [of "\<bar>q\<bar>" k] assms by (simp add: abs_round_nearest)
qed

lemma round_double_0 [simp]: "round_double 0 = Finite 0"
  by (simp add: round_double_def)

lemma round_double_finite:
  assumes "\<bar>q\<bar> < 2 powi 1023"
  shows "round_double q = Finite (round_nearest q)"
proof -
  have "\<bar>round_nearest q\<bar> \<le> 2 powi 1023" using assms by (rule round_nearest_bound) simp
  also have "\<dots> < 2 powi 1024" by (rule pow2_strict_mono) simp
  finally show ?thesis by (simp add: round_double_def)
qed

text \<open>The grid of a unit in the last place.\<close>

lemma grid_refine:
  assumes "v = of_int m * 2 powi k" and "ulp_exp v \<le> k"
  shows "\<exists>m'. v = of_int m' * ulp v"
proof -
  have "(2::rat) powi k = 2 powi (k - ulp_exp v) * 2 powi ulp_exp v"
    by (simp add: power_int_add [symmetric])
  also have "(2::rat) powi (k - ulp_exp v) = of_int (2 ^ nat (k - ulp_exp v))"
    using assms(2) by (simp add: power_int_nonneg_exp)
  finally have "v = of_int (m * 2 ^ nat (k - ulp_exp v)) * ulp v"
    using assms(1) by (simp add: ulp_def)
  then show ?thesis ..
qed

lemma round_mag_grid:
  assumes "0 < q"
  shows "\<exists>m. round_mag q = of_int m * ulp (round_mag q)"
proof -
  define m where "m = round_even (q / ulp q)"
  define v where "v = round_mag q"
  have v: "v = of_int m * 2 powi ulp_exp q" by (simp add: v_def m_def round_mag_def ulp_def)
  have m0: "0 \<le> m" unfolding m_def using assms by (intro round_even_nonneg) simp
  have E: "- 1022 - 52 \<le> ulp_exp q" by (simp add: ulp_exp_def)
  have up: "v \<le> 2 powi (ulp_exp q + 53)" unfolding v_def by (rule round_mag_upper [OF assms])
  show ?thesis
  proof (cases "v = 0")
    case True
    then have "v = of_int 0 * ulp v" by simp
    then show ?thesis unfolding v_def ..
  next
    case False
    then have vpos: "0 < v" using m0 v
      by (metis less_eq_rat_def mult_nonneg_nonneg of_int_0_le_iff zero_le_power_int zero_le_numeral)
    show ?thesis
    proof (cases "v < 2 powi (ulp_exp q + 53)")
      case True
      then have "ilog2 v < ulp_exp q + 53" using vpos by (intro ilog2_less)
      then have "ulp_exp v \<le> ulp_exp q" using E vpos by (simp add: ulp_exp_def)
      then show ?thesis using grid_refine [OF v] by (simp add: v_def)
    next
      case False
      then have eq: "v = 2 powi (ulp_exp q + 53)" using up by simp
      have "(2::rat) powi (ulp_exp q + 53) = 2 powi 52 * 2 powi (ulp_exp q + 1)"
        by (simp add: power_int_add)
      then have v': "v = of_int (2 ^ 52) * 2 powi (ulp_exp q + 1)" using eq by simp
      have "v < 2 powi (ulp_exp q + 54)" unfolding eq by (rule pow2_strict_mono) simp
      then have "ilog2 v < ulp_exp q + 54" using vpos by (intro ilog2_less)
      then have "ulp_exp v \<le> ulp_exp q + 1" using E vpos by (simp add: ulp_exp_def)
      then show ?thesis using grid_refine [OF v'] by (simp add: v_def)
    qed
  qed
qed

text \<open>A point of the grid is a fixed point of the rounding.\<close>

lemma round_mag_idem:
  assumes "0 < q"
  shows "round_mag (round_mag q) = round_mag q"
  using round_mag_grid [OF assms] round_mag_exact by blast

text \<open>Between a grid point and a value that rounds above it lies half a unit.\<close>

lemma round_above_gap:
  assumes P: "0 < P" and grid: "P = of_int k * ulp P" and x: "P < round_mag x" and x0: "0 < x"
  shows "P + ulp P / 2 \<le> x"
proof -
  have rP: "round_mag P = P" using grid by (rule round_mag_exact)
  have Px: "P < x"
  proof (rule ccontr)
    assume "\<not> P < x"
    then have "round_mag x \<le> round_mag P" using x0 by (intro round_mag_mono) simp_all
    then show False using x rP by simp
  qed
  then have le: "ulp_exp P \<le> ulp_exp x" using P by (intro ulp_exp_mono) simp_all
  show ?thesis
  proof (cases "ulp_exp P = ulp_exp x")
    case True
    then have u: "ulp x = ulp P" by (simp add: ulp_def)
    have "of_int k * ulp P < of_int (round_even (x / ulp P)) * ulp P"
      using x grid by (simp add: round_mag_def u)
    then have "(of_int k :: rat) < of_int (round_even (x / ulp P))"
      by (simp add: mult_less_cancel_right)
    then have "k + 1 \<le> round_even (x / ulp P)" by simp
    then have "(of_int (k + 1) :: rat) \<le> of_int (round_even (x / ulp P))"
      by (simp only: of_int_le_iff)
    moreover have "\<bar>of_int (round_even (x / ulp P)) - x / ulp P\<bar> \<le> 1 / 2"
      by (rule round_even_near)
    ultimately have "of_int k + 1 / 2 \<le> x / ulp P" unfolding abs_le_iff by simp
    then have "(of_int k + 1 / 2) * ulp P \<le> x" by (simp add: pos_le_divide_eq)
    then show ?thesis using grid by (simp add: algebra_simps)
  next
    case False
    then have lt: "ulp_exp P < ulp_exp x" using le by simp
    have "- 1022 - 52 \<le> ulp_exp P" by (simp add: ulp_exp_def)
    then have "- 1022 < ilog2 x" using lt x0 by (simp add: ulp_exp_def max_def split: if_splits)
    then have ex: "ulp_exp x = ilog2 x - 52" using x0 by (simp add: ulp_exp_def)
    have "P < 2 powi (ilog2 P + 1)" by (rule ilog2_upper [OF P])
    also have "\<dots> \<le> 2 powi (ulp_exp P + 53)" using P by (intro pow2_mono) (simp add: ulp_exp_def)
    also have "\<dots> = of_int (2 ^ 53) * ulp P" by (simp add: ulp_def power_int_add)
    finally have "of_int k * ulp P < of_int (2 ^ 53) * ulp P" using grid by simp
    then have "(of_int k :: rat) < of_int (2 ^ 53)" by (simp only: mult_less_cancel_right) simp
    then have "k + 1 \<le> 2 ^ 53" by simp
    then have "(of_int (k + 1) :: rat) \<le> of_int (2 ^ 53)" by (simp only: of_int_le_iff)
    then have "of_int (k + 1) * ulp P \<le> of_int (2 ^ 53) * ulp P"
      by (intro mult_right_mono) simp_all
    also have "\<dots> = 2 powi (ulp_exp P + 53)" by (simp add: ulp_def power_int_add)
    also have "\<dots> \<le> 2 powi ilog2 x" using lt ex by (intro pow2_mono) simp
    also have "\<dots> \<le> x" by (rule ilog2_lower [OF x0])
    finally have "P + ulp P \<le> x" using grid by (simp add: algebra_simps)
    moreover have "ulp P / 2 \<le> ulp P" by simp
    ultimately show ?thesis by linarith
  qed
qed

subsection \<open>Relative error and exact values\<close>

lemma min_normal_pos: "0 < min_normal"
  unfolding min_normal_def by (rule zero_less_power_int) simp

lemma min_normal_le_1: "min_normal \<le> 1"
  unfolding min_normal_def using pow2_mono [of "- 1022" 0] by (simp del: power_int_numeral_neg_numeral power_int_minus)

lemma normal_pos: "min_normal \<le> q \<Longrightarrow> 0 < q"
  using min_normal_pos by linarith

lemma one_normal: "1 \<le> y \<Longrightarrow> min_normal \<le> y"
  using min_normal_le_1 by linarith

lemma round_nearest_rel_upper:
  assumes "min_normal \<le> y"
  shows "round_nearest y \<le> y * (1 + 2 powi (- 53))"
proof -
  have "ulp y \<le> y * 2 powi (- 52)" using assms unfolding min_normal_def by (rule ulp_rel)
  then have "ulp y / 2 \<le> y * 2 powi (- 53)" by (simp add: power_int_minus_divide)
  moreover have "\<bar>round_nearest y - y\<bar> \<le> ulp y / 2" by (rule round_nearest_near)
  ultimately have "round_nearest y \<le> y + y * 2 powi (- 53)" by linarith
  then show ?thesis by (simp add: algebra_simps)
qed

lemma round_nearest_rel_lower:
  assumes "min_normal \<le> y"
  shows "y * (1 - 2 powi (- 53)) \<le> round_nearest y"
proof -
  have "ulp y \<le> y * 2 powi (- 52)" using assms unfolding min_normal_def by (rule ulp_rel)
  then have "ulp y / 2 \<le> y * 2 powi (- 53)" by (simp add: power_int_minus_divide)
  moreover have "\<bar>round_nearest y - y\<bar> \<le> ulp y / 2" by (rule round_nearest_near)
  ultimately have "y - y * 2 powi (- 53) \<le> round_nearest y" by linarith
  then show ?thesis by (simp add: algebra_simps)
qed

lemma ulp_minus [simp]: "ulp (- q) = ulp q"
  by (simp add: ulp_def ulp_exp_def)

lemma ulp_exp_minus [simp]: "ulp_exp (- q) = ulp_exp q"
  by (simp add: ulp_exp_def)

lemma round_nearest_exact:
  assumes "q = of_int m * 2 powi k" and "ulp_exp q \<le> k"
  shows "round_nearest q = q"
proof -
  obtain m' where g: "q = of_int m' * ulp q" using grid_refine [OF assms] by blast
  show ?thesis
  proof (cases "0 \<le> q")
    case True
    then show ?thesis using round_mag_exact [OF g] by (simp add: round_nearest_pos)
  next
    case False
    have "- q = of_int (- m') * ulp (- q)" using g by simp
    then have "round_mag (- q) = - q" by (rule round_mag_exact)
    then show ?thesis using False by (simp add: round_nearest_neg)
  qed
qed

lemma round_nearest_idem: "round_nearest (round_nearest q) = round_nearest q"
proof -
  have pos: "round_nearest (round_mag p) = round_mag p" if "0 < p" for p
  proof -
    have "0 \<le> round_mag p" using that by (intro round_mag_nonneg) simp
    then show ?thesis using round_mag_idem [OF that] by (simp add: round_nearest_pos)
  qed
  consider "q = 0" | "0 < q" | "q < 0" by linarith
  then show ?thesis
  proof cases
    case 1
    then show ?thesis by simp
  next
    case 2
    then show ?thesis using pos [of q] by (simp add: round_nearest_pos)
  next
    case 3
    then have "round_nearest (- round_mag (- q)) = - round_mag (- q)"
      using pos [of "- q"] by (simp add: round_nearest_minus)
    then show ?thesis using 3 by (simp add: round_nearest_neg)
  qed
qed

lemma ilog2_of_int_bound:
  assumes "0 < n" and "n < 2 ^ k"
  shows "ilog2 (of_int n) < int k"
proof -
  have "(of_int n :: rat) < 2 powi int k" using assms(2) by simp
  then show ?thesis using assms(1) by (intro ilog2_less) simp_all
qed

lemma unit_roundoff_pos: "0 < unit_roundoff"
  by (simp add: unit_roundoff_def)

lemma unit_roundoff_less_1: "unit_roundoff < 1"
  by (simp add: unit_roundoff_def power_int_minus_divide)

lemma round_nearest_upper:
  assumes "min_normal \<le> y"
  shows "round_nearest y \<le> y * (1 + unit_roundoff)"
  unfolding unit_roundoff_def using assms by (rule round_nearest_rel_upper)

lemma round_nearest_lower:
  assumes "min_normal \<le> y"
  shows "y * (1 - unit_roundoff) \<le> round_nearest y"
  unfolding unit_roundoff_def using assms by (rule round_nearest_rel_lower)

lemma one_le_mult: "(1::rat) \<le> x \<Longrightarrow> 1 \<le> y \<Longrightarrow> 1 \<le> x * y"
  using mult_mono [of 1 x 1 y] by simp

lemma round_nearest_of_int:
  assumes "\<bar>n\<bar> \<le> 2 ^ 53"
  shows "round_nearest (of_int n) = of_int n"
proof (cases "n = 0")
  case True
  then show ?thesis by simp
next
  case n: False
  show ?thesis
  proof (cases "\<bar>n\<bar> = 2 ^ 53")
    case True
    have "ilog2 (of_int \<bar>n\<bar>) < int 54" using True by (intro ilog2_of_int_bound) simp_all
    then have e: "ulp_exp (of_int n) \<le> 1" by (simp add: ulp_exp_def)
    consider "n = 2 ^ 53" | "n = - (2 ^ 53)" using True by linarith
    then have "(of_int n :: rat) = of_int (sgn n * 2 ^ 52) * 2 powi 1"
      by cases simp_all
    then show ?thesis using e by (rule round_nearest_exact)
  next
    case False
    have "ilog2 (of_int \<bar>n\<bar>) < int 53" using False assms n by (intro ilog2_of_int_bound) simp_all
    then have e: "ulp_exp (of_int n) \<le> 0" by (simp add: ulp_exp_def)
    have "(of_int n :: rat) = of_int n * 2 powi 0" by simp
    then show ?thesis using e by (rule round_nearest_exact)
  qed
qed

lemma round_nearest_1 [simp]: "round_nearest 1 = 1"
  using round_nearest_of_int [of 1] by simp

lemma round_nearest_ge_1: "1 \<le> q \<Longrightarrow> 1 \<le> round_nearest q"
  using round_nearest_mono [of 1 q] by simp

lemma unit_roundoff_numeric:
  "(1 + unit_roundoff) * (1 + unit_roundoff) * (1 + unit_roundoff) * (1 + unit_roundoff)
     / (1 - unit_roundoff) < 101 / 100"
proof -
  have u: "unit_roundoff \<le> 1 / 1000"
    by (simp add: unit_roundoff_def power_int_minus_divide)
  have p: "0 < unit_roundoff" by (rule unit_roundoff_pos)
  define U where "U = 1 + unit_roundoff"
  have U: "U \<le> 1001 / 1000" "0 \<le> U" using u p by (simp_all add: U_def)
  have "U * U \<le> (1001 / 1000) * (1001 / 1000)" using U by (intro mult_mono) simp_all
  then have "U * U * (U * U) \<le> ((1001 / 1000) * (1001 / 1000)) * ((1001 / 1000) * (1001 / 1000))"
    using U by (intro mult_mono) simp_all
  then have n: "U * U * U * U \<le> 1005 / 1000" by (simp add: mult.assoc)
  have "U * U * U * U < 101 / 100 * (1 - unit_roundoff)" using n u by simp
  then show ?thesis using u unfolding U_def [symmetric] by (simp add: pos_divide_less_eq)
qed

subsection \<open>The roundings of the interpolation\<close>

text \<open>The chain of roundings of the interpolation, from a bound on the first difference.\<close>

lemma interpolation_chain:
  fixes A B :: rat and mp :: int
  assumes A0: "0 \<le> A" and B1: "1 \<le> B" and AB: "A \<le> B * (1 + unit_roundoff)"
    and mp0: "0 \<le> mp" and mp100: "mp \<le> 100"
  defines "r \<equiv> round_nearest (round_nearest (round_nearest A / round_nearest B) * of_int mp)"
  shows "0 \<le> r \<and> r < of_int mp + 1
     \<and> 1 \<le> round_nearest B
     \<and> 0 \<le> round_nearest A / round_nearest B \<and> round_nearest A / round_nearest B \<le> 2
     \<and> 0 \<le> round_nearest (round_nearest A / round_nearest B) * of_int mp
     \<and> round_nearest (round_nearest A / round_nearest B) * of_int mp \<le> 200"
proof -
  define U :: rat where "U = 1 + unit_roundoff"
  define L :: rat where "L = 1 - unit_roundoff"
  have U1: "1 \<le> U" using unit_roundoff_pos by (simp add: U_def)
  have L0: "0 < L" using unit_roundoff_less_1 by (simp add: L_def)
  have L1: "L \<le> 1" using unit_roundoff_pos by (simp add: L_def)
  have K: "U * U * U * U / L < 101 / 100" unfolding U_def L_def by (rule unit_roundoff_numeric)
  have up: "round_nearest y \<le> y * U" if "1 \<le> y" for y
    unfolding U_def using that by (intro round_nearest_upper one_normal)
  have lo: "y * L \<le> round_nearest y" if "1 \<le> y" for y
    unfolding L_def using that by (intro round_nearest_lower one_normal)
  define a where "a = round_nearest A"
  define b where "b = round_nearest B"
  define t where "t = round_nearest (a / b)"
  have r: "r = round_nearest (t * of_int mp)" by (simp add: r_def t_def a_def b_def)
  have a0: "0 \<le> a" unfolding a_def using A0 by (rule round_nearest_nonneg)
  have BU1: "1 \<le> B * U" using B1 U1 by (rule one_le_mult)
  have "a \<le> round_nearest (B * U)" unfolding a_def U_def using AB by (rule round_nearest_mono)
  also have "\<dots> \<le> B * U * U" using BU1 by (rule up)
  finally have aU: "a \<le> B * U * U" .
  have bL: "B * L \<le> b" unfolding b_def using B1 by (rule lo)
  have BL0: "0 < B * L" using B1 L0 by simp
  have b0: "0 < b" using bL BL0 by linarith
  have "a / b \<le> (B * U * U) / (B * L)" using aU bL a0 BL0 by (intro frac_le) simp_all
  also have "\<dots> = U * U / L" using B1 by simp
  finally have q: "a / b \<le> U * U / L" .
  have q0: "0 \<le> a / b" using a0 b0 by simp
  have UU1: "1 \<le> U * U" using U1 U1 by (rule one_le_mult)
  have Q1: "1 \<le> U * U / L"
  proof -
    have "L \<le> U * U" using L1 UU1 by linarith
    then show ?thesis using L0 by (simp add: pos_le_divide_eq)
  qed
  have t0: "0 \<le> t" unfolding t_def using q0 by (rule round_nearest_nonneg)
  have "t \<le> round_nearest (U * U / L)" unfolding t_def using q by (rule round_nearest_mono)
  also have "\<dots> \<le> U * U / L * U" using Q1 by (rule up)
  finally have tU: "t \<le> U * U / L * U" .
  have "0 \<le> U * U / L" using Q1 by linarith
  then have QU0: "0 \<le> U * U / L * U" using U1 by (intro mult_nonneg_nonneg) simp_all
  have e4: "U * U / L * U * U = U * U * U * U / L" by simp
  have "U * U / L * U \<le> U * U / L * U * U"
    using mult_left_mono [OF U1 QU0] by (simp only: mult_1_right)
  then have QU: "U * U / L * U \<le> 101 / 100" using K e4 by linarith
  have "U * U / L \<le> U * U / L * U"
    using mult_left_mono [OF U1 \<open>0 \<le> U * U / L\<close>] by (simp only: mult_1_right)
  then have q2: "a / b \<le> 2" using q QU by linarith
  have t1: "t \<le> 101 / 100" using tU QU by linarith
  have b1: "1 \<le> b" unfolding b_def using B1 by (rule round_nearest_ge_1)
  have tm0: "0 \<le> t * of_int mp" using t0 mp0 by simp
  have "t * of_int mp \<le> 101 / 100 * 100"
    using t1 t0 mp0 mp100 by (intro mult_mono) simp_all
  then have tm: "t * of_int mp \<le> 200" by simp
  have r0: "0 \<le> r" unfolding r using t0 mp0 by (intro round_nearest_nonneg mult_nonneg_nonneg) simp_all
  have "r < of_int mp + 1"
  proof (cases "mp = 0")
    case True
    then show ?thesis by (simp add: r)
  next
    case False
    then have m1: "(1::rat) \<le> of_int mp" using mp0 by simp
    define W where "W = U * U / L * U * of_int mp"
    have "1 \<le> U * U / L * U" using Q1 U1 by (rule one_le_mult)
    then have W1: "1 \<le> W" unfolding W_def using m1 by (rule one_le_mult)
    have "t * of_int mp \<le> W" unfolding W_def using tU mp0 by (intro mult_right_mono) simp_all
    then have "r \<le> round_nearest W" unfolding r by (rule round_nearest_mono)
    also have "\<dots> \<le> W * U" using W1 by (rule up)
    also have "\<dots> = (U * U * U * U / L) * of_int mp" by (simp add: W_def)
    also have "\<dots> < 101 / 100 * of_int mp" using K m1 by (intro mult_strict_right_mono) simp_all
    also have "\<dots> \<le> of_int mp + 1"
    proof -
      have "(of_int mp :: rat) \<le> 100" using mp100 by simp
      then show ?thesis by simp
    qed
    finally show ?thesis .
  qed
  then show ?thesis using r0 b1 q0 q2 tm0 tm by (simp add: a_def b_def t_def)
qed

lemma first_difference_bound:
  fixes mn mx :: int and x P :: rat
  assumes x0: "0 \<le> x" and P: "P = round_nearest x"
    and lo: "round_nearest (of_int mn) < P" and hi: "P < round_nearest (of_int mx)"
  shows "mn < mx \<and> P - round_nearest (of_int mn) \<le> of_int (mx - mn) * (1 + unit_roundoff)"
proof -
  define U :: rat where "U = 1 + unit_roundoff"
  have U1: "1 \<le> U" using unit_roundoff_pos by (simp add: U_def)
  have rP: "round_nearest P = P" unfolding P by (rule round_nearest_idem)
  have P0: "0 \<le> P" unfolding P using x0 by (rule round_nearest_nonneg)
  have lt: "mn < mx"
  proof (rule ccontr)
    assume "\<not> mn < mx"
    then have "(of_int mx :: rat) \<le> of_int mn" by simp
    then have "round_nearest (of_int mx :: rat) \<le> round_nearest (of_int mn)"
      by (rule round_nearest_mono)
    then show False using lo hi by linarith
  qed
  have Pmx: "P \<le> of_int mx"
  proof (rule ccontr)
    assume "\<not> P \<le> of_int mx"
    then have "round_nearest (of_int mx) \<le> round_nearest P" by (intro round_nearest_mono) simp
    then show False using hi rP by linarith
  qed
  have mnP: "of_int mn \<le> P"
  proof (rule ccontr)
    assume "\<not> of_int mn \<le> P"
    then have "round_nearest P \<le> round_nearest (of_int mn)" by (intro round_nearest_mono) simp
    then show False using lo rP by linarith
  qed
  have B1: "(1::rat) \<le> of_int (mx - mn)" using lt by simp
  have BU: "(of_int (mx - mn) :: rat) \<le> of_int (mx - mn) * U"
    using B1 U1 by (simp add: mult_le_cancel_left1)
  have "P - round_nearest (of_int mn) \<le> of_int (mx - mn) * U"
  proof (cases "mn \<le> 0")
    case True
    show ?thesis
    proof (cases "mn = 0")
      case True
      then have "P - round_nearest (of_int mn) \<le> of_int (mx - mn)" using Pmx by simp
      then show ?thesis using BU by linarith
    next
      case False
      then have n1: "(1::rat) \<le> - of_int mn" using True by simp
      have "round_nearest (- of_int mn) \<le> (- of_int mn) * U"
        unfolding U_def using n1 by (intro round_nearest_upper one_normal)
      then have "P - round_nearest (of_int mn) \<le> of_int mx + (- of_int mn) * U"
        using Pmx by (simp add: round_nearest_minus)
      also have "\<dots> \<le> of_int mx * U + (- of_int mn) * U"
      proof -
        have "(0::rat) \<le> of_int mx" using P0 Pmx by linarith
        then have "(of_int mx :: rat) \<le> of_int mx * U" using U1 by (simp add: mult_le_cancel_left1)
        then show ?thesis by simp
      qed
      also have "\<dots> = of_int (mx - mn) * U" by (simp add: algebra_simps)
      finally show ?thesis .
    qed
  next
    case False
    then have mn0: "(0::rat) < of_int mn" by simp
    have d0: "0 \<le> round_nearest (of_int mn :: rat)" using mn0 by (intro round_nearest_nonneg) simp
    have Ppos: "0 < P" using d0 lo by linarith
    have xpos: "0 < x" using Ppos P x0 by (cases "x = 0") simp_all
    have Pm: "P = round_mag x" unfolding P using x0 by (rule round_nearest_pos)
    obtain k where grid: "P = of_int k * ulp P" using round_mag_grid [OF xpos] Pm by auto
    have mx0: "(0::rat) < of_int mx" using Ppos Pmx by linarith
    have "P < round_mag (of_int mx)" using hi mx0 by (simp add: round_nearest_pos)
    then have gap: "P + ulp P / 2 \<le> of_int mx" using Ppos grid mx0 by (intro round_above_gap)
    have "\<bar>round_nearest (of_int mn) - of_int mn\<bar> \<le> ulp (of_int mn) / 2"
      by (rule round_nearest_near)
    moreover have "ulp (of_int mn) \<le> ulp P" using mn0 mnP by (rule ulp_mono)
    ultimately have "of_int mn - round_nearest (of_int mn) \<le> ulp P / 2" by linarith
    then have "P - round_nearest (of_int mn) \<le> of_int mx - of_int mn" using gap by linarith
    then show ?thesis using BU by simp
  qed
  then show ?thesis using lt by (simp add: U_def)
qed

section \<open>The rate and the new probability\<close>

lemma sint_sub_no_overflow:
  fixes a b :: "64 word"
  assumes "- (2 ^ 63) \<le> sint a - sint b" and "sint a - sint b < 2 ^ 63"
  shows "sint (a - b) = sint a - sint b"
  using assms by (simp add: sint_word_ariths signed_take_bit_int_eq_self)

lemma uint_of_nonneg_sint:
  fixes w :: "64 word"
  assumes "0 \<le> sint w"
  shows "uint w = sint w"
proof -
  have "uint w = uint (word_of_int (sint w) :: 64 word)" by simp
  also have "\<dots> = sint w mod 2 ^ LENGTH(64)" by (rule uint_word_of_int)
  also have "\<dots> = sint w" using assms sint_lt [of w] by simp
  finally show ?thesis .
qed

lemma ucast_small:
  fixes w :: "64 word"
  assumes "0 \<le> sint w" and "sint w \<le> 100"
  shows "uint (ucast w :: 32 word) = sint w"
proof -
  have "uint (ucast w :: 32 word) = take_bit 32 (uint w)" by (simp add: unsigned_ucast_eq)
  also have "\<dots> = uint w mod 2 ^ 32" by (simp add: take_bit_eq_mod)
  also have "\<dots> = sint w" using assms by (simp add: uint_of_nonneg_sint)
  finally show ?thesis .
qed

lemma uint_word_of_int_small:
  assumes "0 \<le> k" and "k \<le> 100"
  shows "uint (word_of_int k :: 32 word) = k"
  using assms by (simp add: uint_word_of_int)

lemma sint_abs_bound:
  fixes w :: "64 word"
  shows "\<bar>sint w\<bar> \<le> 2 ^ 63"
  using sint_ge [of w] sint_lt [of w] by simp

lemma round_double_small:
  assumes "\<bar>q\<bar> \<le> 2 ^ 200"
  shows "round_double q = Finite (round_nearest q)"
proof -
  have "(2::rat) ^ 200 = 2 powi 200" by simp
  also have "\<dots> < 2 powi 1023" by (rule pow2_strict_mono) simp
  finally have "\<bar>q\<bar> < 2 powi 1023" using assms by linarith
  then show ?thesis by (rule round_double_finite)
qed

lemma double_of_long_eq: "double_of_long w = Finite (round_nearest (of_int (sint w)))"
proof -
  have "\<bar>of_int (sint w) :: rat\<bar> \<le> of_int (2 ^ 63)"
    using sint_abs_bound [of w] by (simp only: of_int_abs [symmetric] of_int_le_iff)
  also have "\<dots> \<le> 2 ^ 200" by simp
  finally show ?thesis unfolding double_of_long_def by (rule round_double_small)
qed

lemma double_of_u64_eq: "double_of_u64 w = Finite (round_nearest (of_int (uint w)))"
proof -
  have "uint w < 2 ^ 64" using uint_lt2p [of w] by simp
  then have "\<bar>of_int (uint w) :: rat\<bar> \<le> of_int (2 ^ 64)"
    by (simp only: of_int_abs [symmetric] of_int_le_iff) simp
  also have "\<dots> \<le> 2 ^ 200" by simp
  finally show ?thesis unfolding double_of_u64_def by (rule round_double_small)
qed

lemma numerator_bounds:
  fixes n :: int
  assumes n0: "0 \<le> n" and n64: "n < 2 ^ 64"
  defines "N \<equiv> round_nearest (round_nearest (of_int n) * 1000000000)"
  shows "round_double (round_nearest (of_int n) * 1000000000) = Finite N"
    and "0 \<le> N" and "N \<le> 2 ^ 95" and "1 \<le> n \<Longrightarrow> 1 \<le> N" and "n = 0 \<Longrightarrow> N = 0"
proof -
  define v :: rat where "v = round_nearest (of_int n)"
  have v0: "0 \<le> v" unfolding v_def using n0 by (intro round_nearest_nonneg) simp
  have "\<bar>of_int n :: rat\<bar> < 2 powi 64" using n0 n64 by simp
  then have "\<bar>v\<bar> \<le> 2 powi 64" unfolding v_def by (rule round_nearest_bound) simp
  then have v64: "v \<le> 2 ^ 64" by simp
  have "v * 1000000000 \<le> 2 ^ 64 * 1000000000" using v64 by simp
  also have "\<dots> < (2::rat) ^ 95" by simp
  finally have p95: "v * 1000000000 < 2 ^ 95" .
  have p0: "0 \<le> v * 1000000000" using v0 by simp
  have "\<bar>v * 1000000000\<bar> \<le> 2 ^ 200" using p95 p0 by simp
  then show "round_double (round_nearest (of_int n) * 1000000000) = Finite N"
    unfolding N_def v_def [symmetric] by (rule round_double_small)
  show "0 \<le> N" unfolding N_def v_def [symmetric] using p0 by (rule round_nearest_nonneg)
  have "\<bar>v * 1000000000\<bar> < 2 powi 95" using p95 p0 by simp
  then have "\<bar>N\<bar> \<le> 2 powi 95" unfolding N_def v_def [symmetric] by (rule round_nearest_bound) simp
  then show "N \<le> 2 ^ 95" by simp
  show "1 \<le> N" if "1 \<le> n"
  proof -
    have "(1::rat) \<le> of_int n" using that by simp
    then have "1 \<le> v" unfolding v_def by (rule round_nearest_ge_1)
    then have "1 \<le> v * 1000000000" by simp
    then show ?thesis unfolding N_def v_def [symmetric] by (rule round_nearest_ge_1)
  qed
  show "N = 0" if "n = 0" using that by (simp add: N_def)
qed

lemma uint_pos: "w \<noteq> 0 \<Longrightarrow> 1 \<le> uint w"
  using uint_ge_0 [of w] by (simp add: uint_0_iff less_le int_one_le_iff_zero_less)

lemma pps_of_zero_time: "pps_of c 0 = (if c = 0 then NaN else PInf)"
proof -
  have z: "double_of_u64 0 = Finite 0" by (simp add: double_of_u64_def)
  have u: "0 \<le> uint c" "uint c < 2 ^ 64" using uint_lt2p [of c] by simp_all
  note nb = numerator_bounds [OF u]
  show ?thesis
  proof (cases "c = 0")
    case True
    then show ?thesis by (simp add: pps_of_def z double_of_u64_def)
  next
    case False
    then have "1 \<le> uint c" by (rule uint_pos)
    then have "0 < round_nearest (round_nearest (of_int (uint c)) * 1000000000)"
      using nb(4) by linarith
    then show ?thesis using False nb(1)
      by (simp only: pps_of_def z double_of_u64_eq double_mul.simps double_div.simps) simp
  qed
qed

lemma pps_of_cases:
  "pps_of c t = NaN \<or> pps_of c t = PInf \<or> (\<exists>x. 0 \<le> x \<and> pps_of c t = Finite (round_nearest x))"
proof (cases "t = 0")
  case True
  then show ?thesis by (simp add: pps_of_zero_time)
next
  case False
  define N where "N = round_nearest (round_nearest (of_int (uint c)) * 1000000000)"
  define D :: rat where "D = round_nearest (of_int (uint t))"
  have u: "0 \<le> uint c" "uint c < 2 ^ 64" using uint_lt2p [of c] by simp_all
  note nb = numerator_bounds [OF u, folded N_def]
  have "1 \<le> uint t" using False by (rule uint_pos)
  then have "(1::rat) \<le> of_int (uint t)" by (simp only: of_int_1_le_iff)
  then have D1: "1 \<le> D" unfolding D_def by (rule round_nearest_ge_1)
  have N0: "0 \<le> N" and N95: "N \<le> 2 ^ 95" by (rule nb)+
  have q0: "0 \<le> N / D" using N0 D1 by simp
  have "N / D \<le> N / 1" using N0 D1 by (intro divide_left_mono) simp_all
  then have "\<bar>N / D\<bar> \<le> 2 ^ 200" using N95 q0 by simp
  then have "round_double (N / D) = Finite (round_nearest (N / D))" by (rule round_double_small)
  moreover have "D \<noteq> 0" using D1 by simp
  ultimately have "pps_of c t = Finite (round_nearest (N / D))"
    using nb(1)
    by (simp only: pps_of_def double_of_u64_eq double_mul.simps double_div.simps D_def [symmetric] if_False)
  then show ?thesis using q0 by blast
qed

lemma truncate_small:
  assumes "0 \<le> r" and "r < of_int mp + 1" and "mp \<le> 100"
  shows "\<exists>p. double_to_u32 (Finite r) = Inr p \<and> uint p = \<lfloor>r\<rfloor> \<and> 0 \<le> \<lfloor>r\<rfloor> \<and> \<lfloor>r\<rfloor> \<le> mp"
proof -
  have f0: "0 \<le> \<lfloor>r\<rfloor>" using assms(1) by simp
  have f1: "\<lfloor>r\<rfloor> \<le> mp" using assms(2) by (simp add: floor_le_iff)
  have t: "truncate_rat r = \<lfloor>r\<rfloor>" using assms(1) by (simp add: truncate_rat_def)
  have "(of_int mp :: rat) \<le> 100" using assms(3) by simp
  then have rl: "r < 4294967296" using assms(2) by linarith
  have "double_to_u32 (Finite r) = Inr (word_of_int \<lfloor>r\<rfloor>)" using assms(1) rl by (simp add: t)
  moreover have f100: "\<lfloor>r\<rfloor> \<le> 100" using f1 assms(3) by linarith
  moreover have "uint (word_of_int \<lfloor>r\<rfloor> :: u32) = \<lfloor>r\<rfloor>"
    by (rule uint_word_of_int_small [OF f0 f100])
  ultimately show ?thesis using f0 f1 by simp
qed

text \<open>
  The interpolation branch, for a rate strictly between the two converted thresholds
  whose distance from the lower one is, up to one rounding, at most the distance of
  the thresholds.
\<close>

lemma new_prob_between:
  fixes a :: args and P :: rat
  defines "mn \<equiv> sint (min_rate a)" and "mx \<equiv> sint (max_rate a)" and "mp \<equiv> sint (max_prob a)"
  assumes mp: "0 \<le> mp" "mp \<le> 100"
    and lo: "round_nearest (of_int mn) < P" and hi: "P < round_nearest (of_int mx)"
    and lt: "mn < mx"
    and AB: "P - round_nearest (of_int mn) \<le> of_int (mx - mn) * (1 + unit_roundoff)"
    and d: "long_sub (max_rate a) (min_rate a) = Inr d"
  shows "\<exists>p. new_prob a (Finite P) = Inr p
     \<and> uint p
         = \<lfloor>round_nearest (round_nearest (round_nearest (P - round_nearest (of_int mn))
               / round_nearest (of_int (mx - mn))) * of_int mp)\<rfloor>
     \<and> uint p \<le> mp"
proof -
  define A where "A = P - round_nearest (of_int mn)"
  define B :: rat where "B = of_int (mx - mn)"
  have fd: "mn < mx" "A \<le> B * (1 + unit_roundoff)"
    using lt AB by (simp_all add: A_def B_def)
  have A0: "0 \<le> A" using lo by (simp add: A_def)
  have B1: "1 \<le> B" using fd(1) by (simp add: B_def)
  note ch = interpolation_chain [OF A0 B1 fd(2) mp]
  define b where "b = round_nearest B"
  define q where "q = round_nearest A / b"
  define t where "t = round_nearest q"
  define r where "r = round_nearest (t * of_int mp)"
  have r: "0 \<le> r" "r < of_int mp + 1" using ch by (simp_all add: r_def t_def q_def b_def)
  have b1: "1 \<le> b" using ch by (simp add: b_def)
  have q: "0 \<le> q" "q \<le> 2" using ch by (simp_all add: q_def b_def)
  have tm: "0 \<le> t * of_int mp" "t * of_int mp \<le> 200" using ch by (simp_all add: t_def q_def b_def)
  have gt: "double_gt (Finite P) (double_of_long (min_rate a))"
    using lo by (simp add: double_of_long_eq mn_def)
  have ge: "\<not> double_ge (Finite P) (double_of_long (max_rate a))"
    using hi by (simp add: double_of_long_eq mx_def)
  have nov: "- (2 ^ 63) \<le> mx - mn"
    using fd(1) by simp
  from d have ov: "mx - mn < 2 ^ 63" and dd: "d = max_rate a - min_rate a"
    by (auto simp: long_sub_def mx_def mn_def split: if_splits)
  have sd: "sint d = mx - mn"
    unfolding dd mx_def mn_def using nov ov by (intro sint_sub_no_overflow) (simp_all add: mx_def mn_def)
  have B64: "B \<le> 2 ^ 63" using ov by (simp add: B_def)
  have "A \<le> B * 2"
  proof -
    have "B * (1 + unit_roundoff) \<le> B * 2" using B1 unit_roundoff_less_1
      by (intro mult_left_mono) simp_all
    then show ?thesis using fd(2) by linarith
  qed
  then have "\<bar>A\<bar> \<le> 2 ^ 200" using A0 B64 by simp
  then have s1: "double_sub (Finite P) (double_of_long (min_rate a)) = Finite (round_nearest A)"
    by (simp add: double_of_long_eq A_def mn_def round_double_small)
  have s2: "double_of_long d = Finite b"
    by (simp only: double_of_long_eq sd b_def B_def)
  have "\<bar>q\<bar> \<le> 2 ^ 200" using q by simp
  then have s3: "double_div (Finite (round_nearest A)) (Finite b) = Finite t"
    using b1 by (simp add: t_def q_def round_double_small)
  have mpx: "round_nearest (of_int mp) = (of_int mp :: rat)"
    using mp by (intro round_nearest_of_int) simp
  have s4: "double_of_long (max_prob a) = Finite (of_int mp)"
    by (simp only: double_of_long_eq mp_def [symmetric] mpx)
  have "\<bar>t * of_int mp\<bar> \<le> 2 ^ 200" using tm by simp
  then have s5: "double_mul (Finite t) (Finite (of_int mp)) = Finite r"
    by (simp add: r_def round_double_small)
  have "new_prob a (Finite P)
      = (case long_sub (max_rate a) (min_rate a) of
           Inl ub \<Rightarrow> Inl ub
         | Inr d \<Rightarrow>
             double_to_u32
               (double_mul
                  (double_div (double_sub (Finite P) (double_of_long (min_rate a)))
                     (double_of_long d))
                  (double_of_long (max_prob a))))"
    unfolding new_prob_def using gt ge by (simp only: if_True if_False)
  also have "\<dots> = double_to_u32 (Finite r)"
    by (simp only: d sum.case s1 s2 s3 s4 s5)
  finally have np: "new_prob a (Finite P) = double_to_u32 (Finite r)" .
  obtain p where "double_to_u32 (Finite r) = Inr p" "uint p = \<lfloor>r\<rfloor>" "\<lfloor>r\<rfloor> \<le> mp"
    using truncate_small [OF r mp(2)] by blast
  then have "\<exists>p. new_prob a (Finite P) = Inr p \<and> uint p = \<lfloor>r\<rfloor> \<and> uint p \<le> mp"
    unfolding np by (intro exI [of _ p]) simp
  then show ?thesis by (simp add: r_def t_def q_def b_def A_def B_def)
qed

lemma new_prob_interpolate:
  fixes a :: args and x :: rat
  defines "mn \<equiv> sint (min_rate a)" and "mx \<equiv> sint (max_rate a)" and "mp \<equiv> sint (max_prob a)"
  assumes mp: "0 \<le> mp" "mp \<le> 100"
    and x0: "0 \<le> x" and P: "P = round_nearest x"
    and lo: "round_nearest (of_int mn) < P" and hi: "P < round_nearest (of_int mx)"
    and d: "long_sub (max_rate a) (min_rate a) = Inr d"
  shows "\<exists>p. new_prob a (Finite P) = Inr p
     \<and> uint p
         = \<lfloor>round_nearest (round_nearest (round_nearest (P - round_nearest (of_int mn))
               / round_nearest (of_int (mx - mn))) * of_int mp)\<rfloor>
     \<and> uint p \<le> mp"
proof -
  have "mn < mx"
    and "P - round_nearest (of_int mn) \<le> of_int (mx - mn) * (1 + unit_roundoff)"
    using first_difference_bound [OF x0 P lo hi] by simp_all
  then show ?thesis
    unfolding mn_def mx_def mp_def
    using mp lo hi d by (intro new_prob_between) (simp_all add: mn_def mx_def mp_def)
qed

text \<open>
  With \<open>max_prob\<close> in range and a rate that is NaN, \<open>+\<infinity>\<close> or a non-negative double,
  the new probability is at most \<open>max_prob\<close>, unless \<open>max_rate - min_rate\<close> overflows.
\<close>

lemma new_prob_cases:
  assumes mp: "0 \<le> sint (max_prob a)" "sint (max_prob a) \<le> 100"
    and pps: "pps = NaN \<or> pps = PInf \<or> (\<exists>x. 0 \<le> x \<and> pps = Finite (round_nearest x))"
  shows "(\<exists>p. new_prob a pps = Inr p \<and> uint p \<le> sint (max_prob a))
     \<or> (new_prob a pps = Inl Signed_overflow
         \<and> long_sub (max_rate a) (min_rate a) = Inl Signed_overflow)"
proof -
  have uc: "uint (ucast (max_prob a) :: u32) = sint (max_prob a)" using mp by (rule ucast_small)
  consider "pps = NaN" | "pps = PInf" | x where "0 \<le> x" "pps = Finite (round_nearest x)"
    using pps by blast
  then show ?thesis
  proof cases
    case 1
    then show ?thesis using mp by (simp add: new_prob_def)
  next
    case 2
    then show ?thesis using uc by (simp add: new_prob_def double_of_long_eq)
  next
    case 3
    define P where "P = round_nearest x"
    show ?thesis
    proof (cases "round_nearest (of_int (sint (min_rate a))) < P")
      case False
      then show ?thesis using 3 mp by (simp add: new_prob_def double_of_long_eq P_def)
    next
      case lo: True
      show ?thesis
      proof (cases "P < round_nearest (of_int (sint (max_rate a)))")
        case False
        then show ?thesis using 3 lo uc by (simp add: new_prob_def double_of_long_eq P_def)
      next
        case True
        show ?thesis
        proof (cases "long_sub (max_rate a) (min_rate a)")
          case (Inl ub)
          then have "ub = Signed_overflow" by (simp add: long_sub_def split: if_splits)
          then show ?thesis using Inl lo True 3
            by (simp add: new_prob_def double_of_long_eq P_def)
        next
          case (Inr d)
          show ?thesis
            using new_prob_interpolate [OF mp 3(1) P_def lo True Inr] 3(2)
            by (auto simp: P_def)
        qed
      qed
    qed
  qed
qed

lemma new_prob_range:
  assumes mp: "0 \<le> sint (max_prob a)" "sint (max_prob a) \<le> 100"
    and pps: "pps = NaN \<or> pps = PInf \<or> (\<exists>x. 0 \<le> x \<and> pps = Finite (round_nearest x))"
    and res: "new_prob a pps = Inr p"
  shows "uint p \<le> sint (max_prob a)"
  using new_prob_cases [OF mp pps] res by auto

lemma new_prob_NaN: "new_prob a NaN = Inr 0"
  by (simp add: new_prob_def)

lemma new_prob_PInf: "new_prob a PInf = Inr (ucast (max_prob a))"
  by (simp add: new_prob_def double_of_long_eq)

lemma tick_zero_elapsed_eq:
  "tick a ls (Lookup_ok s (last_time_ns ls))
   = Inr (\<lparr>last_time_ns = last_time_ns ls, last_packet_count = packet_count s\<rparr>,
          Some (s\<lparr>drop_probability :=
                   (if packet_count s = last_packet_count ls then 0 else ucast (max_prob a))\<rparr>))"
  by (simp add: pps_of_zero_time new_prob_NaN new_prob_PInf)

lemma tick_write_range:
  assumes mp: "0 \<le> sint (max_prob a)" "sint (max_prob a) \<le> 100"
    and t: "tick a ls ob = Inr (ls', Some w)"
  shows "uint (drop_probability w) \<le> sint (max_prob a)"
proof (cases ob)
  case Lookup_failed
  then show ?thesis using t by simp
next
  case (Lookup_ok s now)
  define pps where "pps = pps_of (packet_count s - last_packet_count ls) (now - last_time_ns ls)"
  obtain p where p: "new_prob a pps = Inr p" and w: "w = s\<lparr>drop_probability := p\<rparr>"
    using t Lookup_ok by (cases "new_prob a pps") (auto simp: pps_def Let_def)
  have "uint p \<le> sint (max_prob a)"
    using mp pps_of_cases p unfolding pps_def by (rule new_prob_range)
  then show ?thesis by (simp add: w)
qed

lemma dynamic_loop_writes:
  assumes "\<And>ls ob ls' w. tick a ls ob = Inr (ls', Some w) \<Longrightarrow> Q w"
  shows "\<forall>w \<in> set (fst (dynamic_loop a ls obs)). Q w"
proof (induction obs arbitrary: ls)
  case Nil
  then show ?case by simp
next
  case (Cons ob obs)
  show ?case
  proof (cases "tick a ls ob")
    case (Inl ub)
    then show ?thesis by simp
  next
    case (Inr r)
    obtain ls1 w1 where r: "r = (ls1, w1)" by (cases r)
    show ?thesis
    proof (cases w1)
      case None
      then show ?thesis using Inr r Cons.IH [of ls1] by simp
    next
      case (Some s)
      then have "Q s" using Inr r assms by simp
      then show ?thesis using Inr r Some Cons.IH [of ls1] by simp
    qed
  qed
qed

lemma validate_ok:
  assumes "validate a have_ifname = Inr u"
  shows "mode a \<noteq> None"
    and "mode a = Some MODE_FIXED \<longrightarrow> 0 \<le> sint (prob a) \<and> sint (prob a) \<le> 100"
    and "mode a \<noteq> Some MODE_FIXED \<longrightarrow> 0 \<le> sint (max_prob a) \<and> sint (max_prob a) \<le> 100"
  using assms by (auto simp: validate_def split: if_splits)

lemma fixed_state_range:
  assumes "0 \<le> sint p" and "sint p \<le> 100"
  shows "uint (drop_probability (fixed_state p)) \<le> 100"
proof -
  have "drop_probability (fixed_state p) = ucast p" by (simp add: fixed_state_def)
  then show ?thesis using ucast_small [OF assms] assms(2) by simp
qed

lemma updates_of_prints:
  "set evs \<subseteq> insert Usage (range Report) \<Longrightarrow> updates_of evs = []"
proof (induction evs)
  case Nil
  then show ?case by simp
next
  case (Cons ev evs)
  then show ?case by (cases ev) auto
qed

lemma attach_and_run_dynamic:
  "snd (attach_and_run a e) = Dynamic_loop
   \<Longrightarrow> mode a \<noteq> Some MODE_FIXED \<and> updates_of (fst (attach_and_run a e)) = []"
  by (simp add: attach_and_run_def cleanup_def split: if_splits)

lemma attach_and_run_fixed:
  "w \<in> set (updates_of (fst (attach_and_run a e)))
   \<Longrightarrow> w = fixed_state (prob a) \<and> mode a = Some MODE_FIXED"
  by (simp add: attach_and_run_def cleanup_def split: if_splits)

lemma main_writes_rejected:
  assumes "parse_options opts initial_args = Inl evs
     \<or> (\<exists>a. parse_options opts initial_args = Inr a \<and> validate a have_ifname = Inl evs)"
  shows "main_writes opts have_ifname e t0 obs = []"
proof -
  have "evs \<noteq> [] \<and> set evs \<subseteq> insert Usage (range Report)"
    using assms parse_options_prints validate_prints by blast
  then have "updates_of evs = []" by (simp add: updates_of_prints)
  moreover have "main_startup opts have_ifname e = (evs, Exit 1)"
    using assms by (auto simp: main_startup_def)
  ultimately show ?thesis by (simp add: main_writes_def)
qed

lemma main_writes_accepted:
  assumes "parse_options opts initial_args = Inr a" and "validate a have_ifname = Inr u"
  shows "main_writes opts have_ifname e t0 obs
     = (if snd (attach_and_run a e) = Dynamic_loop
        then fst (dynamic_loop a (initial_loop_state t0) obs)
        else updates_of (fst (attach_and_run a e)))"
proof -
  obtain evs out where ar: "attach_and_run a e = (evs, out)" by (cases "attach_and_run a e")
  have ms: "main_startup opts have_ifname e = (evs, out)"
    using assms ar by (simp add: main_startup_def)
  show ?thesis
  proof (cases "out = Dynamic_loop")
    case True
    then have "updates_of evs = []" using attach_and_run_dynamic [of a e] ar by simp
    then show ?thesis using True by (simp add: main_writes_def ms ar assms(1))
  next
    case False
    then show ?thesis by (cases out) (simp_all add: main_writes_def ms ar)
  qed
qed

section \<open>The loop of dynamic mode: what a tick writes\<close>

text \<open>
  Every record that a run of \<open>main\<close> writes to the map, the one of fixed mode as well
  as each one of the loop of dynamic mode, carries a \<open>drop_probability\<close> between 0 and
  100. A run writes only after its options have passed the validation, and an
  iteration in which the subtraction \<open>max_rate - min_rate\<close> overflows \<open>long\<close> is the
  end of the run of the model: it writes nothing.
\<close>

lemma written_probability_in_range:
  assumes "w \<in> set (main_writes opts have_ifname e t0 obs)"
  shows "uint (drop_probability w) \<le> 100"
proof -
  consider evs where "parse_options opts initial_args = Inl evs
       \<or> (\<exists>a. parse_options opts initial_args = Inr a \<and> validate a have_ifname = Inl evs)"
    | a u where "parse_options opts initial_args = Inr a" "validate a have_ifname = Inr u"
    by (cases "parse_options opts initial_args";
        cases "validate (projr (parse_options opts initial_args)) have_ifname") auto
  then show ?thesis
  proof cases
    case 1
    then have "main_writes opts have_ifname e t0 obs = []" by (rule main_writes_rejected)
    then show ?thesis using assms by simp
  next
    case 2
    note ok = validate_ok [OF 2(2)]
    note mw = main_writes_accepted [OF 2, of e t0 obs]
    show ?thesis
    proof (cases "snd (attach_and_run a e) = Dynamic_loop")
      case False
      then have "w \<in> set (updates_of (fst (attach_and_run a e)))" using assms mw by simp
      then have "w = fixed_state (prob a)" and "mode a = Some MODE_FIXED"
        using attach_and_run_fixed by blast+
      then show ?thesis using ok(2) fixed_state_range by simp
    next
      case True
      then have "mode a \<noteq> Some MODE_FIXED" using attach_and_run_dynamic by blast
      then have mp: "0 \<le> sint (max_prob a)" "sint (max_prob a) \<le> 100" using ok(3) by simp_all
      have "w \<in> set (fst (dynamic_loop a (initial_loop_state t0) obs))"
        using assms True mw by simp
      moreover have "\<forall>w \<in> set (fst (dynamic_loop a (initial_loop_state t0) obs)).
          uint (drop_probability w) \<le> sint (max_prob a)"
        using tick_write_range [OF mp] by (rule dynamic_loop_writes)
      ultimately show ?thesis using mp(2) by fastforce
    qed
  qed
qed

text \<open>
  \<^bold>\<open>C1.\<close> The loop has no guard on the elapsed time. The difference of the two
  \<open>__u64\<close> times is never negative; when it is 0 the tick still advances the baseline
  and still writes \<open>drop_probability\<close>: the division is a division of doubles, which
  does not trap, and yields NaN when no packet was counted since the last tick (the
  new probability is then 0) and \<open>+\<infinity>\<close> otherwise (the new probability is then
  \<open>max_prob\<close>).
\<close>

theorem tick_zero_elapsed:
  "tick a ls (Lookup_ok s (last_time_ns ls))
   = Inr (\<lparr>last_time_ns = last_time_ns ls, last_packet_count = packet_count s\<rparr>,
          Some (s\<lparr>drop_probability :=
                   (if packet_count s = last_packet_count ls then 0 else ucast (max_prob a))\<rparr>))"
  by (rule tick_zero_elapsed_eq)

theorem tick_zero_elapsed_overwrites:
  "tick initial_args \<lparr>last_time_ns = 5, last_packet_count = 0\<rparr>
     (Lookup_ok \<lparr>packet_count = 10, dropped_count = 0, drop_probability = 7\<rparr> 5)
   = Inr (\<lparr>last_time_ns = 5, last_packet_count = 10\<rparr>,
          Some \<lparr>packet_count = 10, dropped_count = 0, drop_probability = 50\<rparr>)"
  using tick_zero_elapsed_eq
    [of initial_args "\<lparr>last_time_ns = 5, last_packet_count = 0\<rparr>"
       "\<lparr>packet_count = 10, dropped_count = 0, drop_probability = 7\<rparr>"]
  by (simp add: initial_args_def DEFAULT_MAX_PROBABILITY_def)

section \<open>Who writes which field\<close>

text \<open>
  \<^bold>\<open>C5.\<close> The kernel program never changes \<open>drop_probability\<close>: that field is written
  by the loader only. The loader, however, stores whole records with
  \<open>bpf_map_update_elem\<close>: a tick of dynamic mode stores the record its lookup copied
  out, with the two counters as they were read and the new probability, and the one
  write of fixed mode stores 0 in both counters.
\<close>

theorem writers_of_fields:
  assumes "m 0 = Some s" and "tick a ls (Lookup_ok s now) = Inr (ls', w)"
  shows "(\<exists>s'. fst (snd (handle_packet prandom direction m)) = m(0 \<mapsto> s')
            \<and> drop_probability s' = drop_probability s)
     \<and> (\<exists>p. w = Some (s\<lparr>drop_probability := p\<rparr>))
     \<and> bpf_map_update_elem m 0 (fixed_state q)
         = m(0 \<mapsto> \<lparr>packet_count = 0, dropped_count = 0, drop_probability = ucast q\<rparr>)"
proof -
  have "\<exists>s'. fst (snd (handle_packet prandom direction m)) = m(0 \<mapsto> s')
      \<and> drop_probability s' = drop_probability s"
    using assms(1) by (auto simp: handle_packet_def Let_def)
  moreover have "\<exists>p. w = Some (s\<lparr>drop_probability := p\<rparr>)"
    using assms(2)
    by (cases "new_prob a (pps_of (packet_count s - last_packet_count ls) (now - last_time_ns ls))")
      (auto simp: Let_def)
  moreover have "bpf_map_update_elem m 0 (fixed_state q)
      = m(0 \<mapsto> \<lparr>packet_count = 0, dropped_count = 0, drop_probability = ucast q\<rparr>)"
    by (simp add: bpf_map_update_elem_def fixed_state_def)
  ultimately show ?thesis by blast
qed

theorem writers_of_fields_witness:
  "[0 \<mapsto> \<lparr>packet_count = 5, dropped_count = 2, drop_probability = 7\<rparr>] (0 :: u32)
     = Some \<lparr>packet_count = 5, dropped_count = 2, drop_probability = 7\<rparr>
   \<and> tick initial_args \<lparr>last_time_ns = 9, last_packet_count = 5\<rparr>
        (Lookup_ok \<lparr>packet_count = 5, dropped_count = 2, drop_probability = 7\<rparr> 9)
      = Inr (\<lparr>last_time_ns = 9, last_packet_count = 5\<rparr>,
             Some \<lparr>packet_count = 5, dropped_count = 2, drop_probability = 0\<rparr>)
   \<and> (\<exists>s'. fst (snd (handle_packet 3 1
                [0 \<mapsto> \<lparr>packet_count = 5, dropped_count = 2, drop_probability = 7\<rparr>]))
            = [0 \<mapsto> \<lparr>packet_count = 5, dropped_count = 2, drop_probability = 7\<rparr>](0 \<mapsto> s')
          \<and> drop_probability s' = 7)"
proof -
  have h: "[0 \<mapsto> \<lparr>packet_count = 5, dropped_count = 2, drop_probability = 7\<rparr>] (0 :: u32)
     = Some \<lparr>packet_count = 5, dropped_count = 2, drop_probability = 7\<rparr>"
    by simp
  have t: "tick initial_args \<lparr>last_time_ns = 9, last_packet_count = 5\<rparr>
        (Lookup_ok \<lparr>packet_count = 5, dropped_count = 2, drop_probability = 7\<rparr> 9)
      = Inr (\<lparr>last_time_ns = 9, last_packet_count = 5\<rparr>,
             Some \<lparr>packet_count = 5, dropped_count = 2, drop_probability = 0\<rparr>)"
    using tick_zero_elapsed_eq
      [of initial_args "\<lparr>last_time_ns = 9, last_packet_count = 5\<rparr>"
         "\<lparr>packet_count = 5, dropped_count = 2, drop_probability = 7\<rparr>"]
    by simp
  show ?thesis
    using h t writers_of_fields
      [where m = "[0 \<mapsto> \<lparr>packet_count = 5, dropped_count = 2, drop_probability = 7\<rparr>]"
         and s = "\<lparr>packet_count = 5, dropped_count = 2, drop_probability = 7\<rparr>"
         and a = initial_args and ls = "\<lparr>last_time_ns = 9, last_packet_count = 5\<rparr>"
         and now = 9 and ls' = "\<lparr>last_time_ns = 9, last_packet_count = 5\<rparr>"
         and w = "Some \<lparr>packet_count = 5, dropped_count = 2, drop_probability = 0\<rparr>"
         and prandom = 3 and direction = 1]
    by simp
qed

text \<open>
  The write of fixed mode happens after both programs are attached; on a map whose
  counters have reached 5 and 2 by then, it puts both back to 0.
\<close>

theorem fixed_write_resets_counters:
  "Map_update 0 (fixed_state 37)
     \<in> set (fst (main_startup [Opt_mode ''fixed'', Opt_p 37] True
        \<lparr>ifindex = 2, open_ok = True, load_ok = True, ing_prog_found = True,
         eg_prog_found = True, hook_create_err = 0, ing_attach_err = 0, eg_attach_err = 0,
         map_fd = 3, fixed_update_ret = 0\<rparr>))
   \<and> bpf_map_update_elem
        [0 \<mapsto> \<lparr>packet_count = 5, dropped_count = 2, drop_probability = 0\<rparr>] 0 (fixed_state 37)
      = [0 \<mapsto> \<lparr>packet_count = 0, dropped_count = 0, drop_probability = 37\<rparr>]"
  by (simp add: main_startup_def validate_def initial_args_def attach_and_run_def cleanup_def
      EEXIST_def bpf_map_update_elem_def fixed_state_def)

section \<open>The mapping from rate to probability\<close>

subsection \<open>Rounding particular values\<close>

lemma round_even_unique:
  assumes "of_int m - 1 / 2 < t" and "t < of_int m + 1 / 2"
  shows "round_even t = m"
proof -
  have "\<bar>of_int (round_even t) - t\<bar> \<le> 1 / 2" by (rule round_even_near)
  then have "\<bar>(of_int (round_even t) :: rat) - of_int m\<bar> < 1" using assms by linarith
  then have "\<bar>round_even t - m\<bar> < 1"
    by (metis of_int_diff of_int_abs of_int_less_1_iff)
  then show ?thesis by simp
qed

lemma round_nearest_eval:
  assumes "2 powi e \<le> q" and "q < 2 powi (e + 1)" and "- 1022 \<le> e"
    and "of_int m - 1 / 2 < q / 2 powi (e - 52)" and "q / 2 powi (e - 52) < of_int m + 1 / 2"
  shows "round_nearest q = of_int m * 2 powi (e - 52)"
proof -
  have q: "0 < q" using assms(1) by (rule less_le_trans [rotated]) simp
  have "ilog2 q = e" using q assms(1,2) by (rule ilog2_unique)
  then have u: "ulp q = 2 powi (e - 52)" using q assms(3) by (simp add: ulp_def ulp_exp_def)
  have "round_even (q / 2 powi (e - 52)) = m" using assms(4,5) by (rule round_even_unique)
  then show ?thesis using q u by (simp add: round_nearest_pos round_mag_def)
qed

lemma round_nearest_numeral:
  assumes "(numeral n :: int) \<le> 2 ^ 53"
  shows "round_nearest (numeral n) = numeral n"
  using round_nearest_of_int [of "numeral n"] assms by simp

lemma round_57_100: "round_nearest (57 / 100) = 5134103575202365 / 9007199254740992"
  using round_nearest_eval [of "- 1" "57 / 100" 5134103575202365]
  by (simp add: power_int_minus_divide)

lemma round_57_100_100:
  "round_nearest (128352589380059125 / 2251799813685248) = 8022036836253695 / 140737488355328"
  using round_nearest_eval [of 5 "128352589380059125 / 2251799813685248" 8022036836253695]
  by (simp add: power_int_minus_divide)

lemma round_half: "round_nearest (1 / 2) = 1 / 2"
proof -
  have "ilog2 (1 / 2) = - 1" by (rule ilog2_unique) (simp_all add: power_int_minus_divide)
  then have "ulp_exp (1 / 2) \<le> - 1" by (simp add: ulp_exp_def)
  moreover have "(1 / 2 :: rat) = of_int 1 * 2 powi (- 1)" by (simp add: power_int_minus_divide)
  ultimately show ?thesis by (rule round_nearest_exact [rotated])
qed

lemma floor_57: "\<lfloor>8022036836253695 / 140737488355328 :: rat\<rfloor> = 56"
  by (rule floor_unique) simp_all

lemma new_prob_57: "new_prob (initial_args\<lparr>min_rate := 0, max_rate := 100, max_prob := 100\<rparr>) (Finite 57) = Inr 56"
  by (simp add: new_prob_def double_of_long_eq long_sub_def round_double_small
      round_nearest_numeral round_57_100 round_57_100_100 truncate_rat_def floor_57)

lemma pps_of_57: "pps_of 57 1000000000 = Finite 57"
  by (simp add: pps_of_def double_of_u64_eq round_double_small round_nearest_numeral)

lemma default_mapping_values:
  "new_prob initial_args (Finite 1000) = Inr 0"
  "new_prob initial_args (Finite 50500) = Inr 25"
  "new_prob initial_args (Finite 100000) = Inr 50"
  "new_prob initial_args (Finite 200000) = Inr 50"
  "new_prob initial_args (Finite 500) = Inr 0"
  by (simp_all add: new_prob_def initial_args_def DEFAULT_MIN_RATE_PPS_def
      DEFAULT_MAX_RATE_PPS_def DEFAULT_MAX_PROBABILITY_def double_of_long_eq long_sub_def
      round_double_small round_nearest_numeral round_half truncate_rat_def)

lemma spec_probability_57: "spec_probability 0 100 100 57 = 57"
  by (simp add: spec_probability_def)

subsection \<open>The error of the interpolation\<close>

lemma ulp_subnormal:
  assumes "0 < y" and "y < min_normal"
  shows "ulp y \<le> 1 / 1000000"
proof -
  have "ilog2 y < - 1022" using assms unfolding min_normal_def by (rule ilog2_less)
  then have "ulp_exp y = - 1074" using assms(1) by (simp add: ulp_exp_def)
  then have "ulp y \<le> 2 powi (- 20)" unfolding ulp_def by (intro pow2_mono) simp
  also have "\<dots> \<le> 1 / 1000000" by (simp add: power_int_minus_divide)
  finally show ?thesis .
qed

lemma half_ulp_crude:
  assumes "0 < y"
  shows "ulp y / 2 \<le> y / 1000 + 1 / 1000000"
proof (cases "min_normal \<le> y")
  case True
  then have "ulp y \<le> y * 2 powi (- 52)" unfolding min_normal_def by (rule ulp_rel)
  also have "\<dots> \<le> y * (1 / 500)" using assms
    by (intro mult_left_mono) (simp_all add: power_int_minus_divide)
  finally show ?thesis using assms by simp
next
  case False
  then have "ulp y \<le> 1 / 1000000" using assms by (intro ulp_subnormal) simp_all
  then show ?thesis using assms by simp
qed

lemma round_nearest_crude:
  assumes "0 \<le> y"
  shows "round_nearest y \<le> y * (1001 / 1000) + 1 / 1000000
     \<and> y * (999 / 1000) - 1 / 1000000 \<le> round_nearest y"
proof (cases "y = 0")
  case True
  then show ?thesis by simp
next
  case False
  then have "ulp y / 2 \<le> y / 1000 + 1 / 1000000" using assms by (intro half_ulp_crude) simp
  moreover have "\<bar>round_nearest y - y\<bar> \<le> ulp y / 2" by (rule round_nearest_near)
  ultimately have "round_nearest y - y \<le> y / 1000 + 1 / 1000000"
    and "y - round_nearest y \<le> y / 1000 + 1 / 1000000"
    by linarith+
  then have "round_nearest y \<le> y * (1001 / 1000) + 1 / 1000000"
    and "y * (999 / 1000) - 1 / 1000000 \<le> round_nearest y"
    by linarith+
  then show ?thesis by (rule conjI)
qed

lemma interpolation_error:
  fixes A B :: rat and mp :: int
  assumes A0: "0 \<le> A" and AB: "A \<le> B" and B1: "1 \<le> B" and mp0: "0 \<le> mp" and mp100: "mp \<le> 100"
  shows "\<bar>round_nearest (round_nearest (round_nearest A / round_nearest B) * of_int mp)
           - A / B * of_int mp\<bar> < 1"
proof -
  define rho where "rho = A / B"
  define M :: rat where "M = of_int mp"
  define a where "a = round_nearest A"
  define b where "b = round_nearest B"
  define q where "q = a / b"
  define t where "t = round_nearest q"
  define r where "r = round_nearest (t * M)"
  define E where "E = rho * M"
  have B0: "0 < B" using B1 by simp
  have rho0: "0 \<le> rho" using A0 B0 by (simp add: rho_def)
  have rho1: "rho \<le> 1" using AB B0 by (simp add: rho_def)
  have A: "A = rho * B" using B0 by (simp add: rho_def)
  have M0: "0 \<le> M" and M100: "M \<le> 100" using mp0 mp100 by (simp_all add: M_def)
  have E0: "0 \<le> E" unfolding E_def using rho0 M0 by simp
  have "rho * M \<le> 1 * M" using rho1 M0 by (rule mult_right_mono)
  then have E100: "E \<le> 100" unfolding E_def using M100 by simp
  have a0: "0 \<le> a" unfolding a_def using A0 by (rule round_nearest_nonneg)
  have a_up: "a \<le> A * (1001 / 1000) + 1 / 1000000"
    and a_lo: "A * (999 / 1000) - 1 / 1000000 \<le> a"
    unfolding a_def using round_nearest_crude [OF A0] by simp_all
  have Bn: "0 \<le> B" using B0 by simp
  have b_up: "b \<le> B * (1002 / 1000)" and b_lo: "B * (998 / 1000) \<le> b"
    unfolding b_def using round_nearest_crude [OF Bn] B1 by simp_all
  have b0: "0 < b" using b_lo B0 by simp
  have q0: "0 \<le> q" unfolding q_def using a0 b0 by simp
  have qb: "q * b = a" unfolding q_def using b0 by simp
  have q_up: "q * (998 / 1000) \<le> rho * (1001 / 1000) + 1 / 1000000"
  proof -
    have "q * (B * (998 / 1000)) \<le> q * b" using q0 b_lo by (rule mult_left_mono [rotated])
    also have "\<dots> \<le> rho * B * (1001 / 1000) + 1 / 1000000" using a_up qb A by simp
    also have "\<dots> \<le> (rho * (1001 / 1000) + 1 / 1000000) * B" using B1 by (simp add: algebra_simps)
    finally have "(q * (998 / 1000)) * B \<le> (rho * (1001 / 1000) + 1 / 1000000) * B"
      by (simp add: algebra_simps)
    then show ?thesis using B0 by (simp only: mult_le_cancel_right_pos)
  qed
  have q_lo: "rho * (999 / 1000) - 1 / 1000000 \<le> q * (1002 / 1000)"
  proof -
    have "(rho * (999 / 1000) - 1 / 1000000) * B \<le> rho * B * (999 / 1000) - 1 / 1000000"
      using B1 by (simp add: algebra_simps)
    also have "\<dots> \<le> q * b" using a_lo qb A by simp
    also have "\<dots> \<le> q * (B * (1002 / 1000))" using q0 b_up by (rule mult_left_mono [rotated])
    finally have "(rho * (999 / 1000) - 1 / 1000000) * B \<le> (q * (1002 / 1000)) * B"
      by (simp add: algebra_simps)
    then show ?thesis using B0 by (simp only: mult_le_cancel_right_pos)
  qed
  have t0: "0 \<le> t" unfolding t_def using q0 by (rule round_nearest_nonneg)
  have t_up: "t \<le> q * (1001 / 1000) + 1 / 1000000"
    and t_lo: "q * (999 / 1000) - 1 / 1000000 \<le> t"
    unfolding t_def using round_nearest_crude [OF q0] by simp_all
  define Qm where "Qm = q * M"
  define m where "m = t * M"
  have m0: "0 \<le> m" unfolding m_def using t0 M0 by simp
  have Q_up: "Qm * (998 / 1000) \<le> E * (1001 / 1000) + 1 / 10000"
  proof -
    have "q * (998 / 1000) * M \<le> (rho * (1001 / 1000) + 1 / 1000000) * M"
      using q_up M0 by (rule mult_right_mono)
    then show ?thesis using M100 M0 by (simp add: Qm_def E_def algebra_simps)
  qed
  have Q_lo: "E * (999 / 1000) - 1 / 10000 \<le> Qm * (1002 / 1000)"
  proof -
    have "(rho * (999 / 1000) - 1 / 1000000) * M \<le> q * (1002 / 1000) * M"
      using q_lo M0 by (rule mult_right_mono)
    then show ?thesis using M100 M0 by (simp add: Qm_def E_def algebra_simps)
  qed
  have m_up: "m \<le> Qm * (1001 / 1000) + 1 / 10000"
  proof -
    have "t * M \<le> (q * (1001 / 1000) + 1 / 1000000) * M" using t_up M0 by (rule mult_right_mono)
    then show ?thesis using M100 M0 by (simp add: Qm_def m_def algebra_simps)
  qed
  have m_lo: "Qm * (999 / 1000) - 1 / 10000 \<le> m"
  proof -
    have "(q * (999 / 1000) - 1 / 1000000) * M \<le> t * M" using t_lo M0 by (rule mult_right_mono)
    then show ?thesis using M100 M0 by (simp add: Qm_def m_def algebra_simps)
  qed
  have r_up: "r \<le> m * (1001 / 1000) + 1 / 1000000"
    and r_lo: "m * (999 / 1000) - 1 / 1000000 \<le> r"
    unfolding r_def m_def [symmetric] using round_nearest_crude [OF m0] by simp_all
  have "\<bar>r - E\<bar> < 1" using Q_up Q_lo m_up m_lo r_up r_lo E0 E100 by linarith
  then show ?thesis by (simp add: r_def t_def q_def a_def b_def E_def rho_def M_def)
qed

lemma floor_near:
  fixes r E :: rat
  assumes "\<bar>r - E\<bar> < 1"
  shows "\<bar>\<lfloor>r\<rfloor> - \<lfloor>E\<rfloor>\<bar> \<le> 1"
proof -
  have "of_int \<lfloor>r\<rfloor> \<le> r" "r < of_int \<lfloor>r\<rfloor> + 1" "of_int \<lfloor>E\<rfloor> \<le> E" "E < of_int \<lfloor>E\<rfloor> + 1"
    by linarith+
  then have "(of_int \<lfloor>r\<rfloor> :: rat) < of_int \<lfloor>E\<rfloor> + 2" "(of_int \<lfloor>E\<rfloor> :: rat) < of_int \<lfloor>r\<rfloor> + 2"
    using assms by linarith+
  then have "\<lfloor>r\<rfloor> < \<lfloor>E\<rfloor> + 2" "\<lfloor>E\<rfloor> < \<lfloor>r\<rfloor> + 2"
    by (metis of_int_add of_int_less_iff of_int_numeral)+
  then show ?thesis by linarith
qed

subsection \<open>The new probability and the function of the specification\<close>

lemma long_sub_small:
  assumes "\<bar>sint x\<bar> \<le> 2 ^ 53" and "\<bar>sint y\<bar> \<le> 2 ^ 53"
  shows "long_sub x y = Inr (x - y)"
  using assms by (simp add: long_sub_def abs_le_iff)

lemma new_prob_vs_spec:
  fixes a :: args and pps :: rat
  defines "mn \<equiv> sint (min_rate a)" and "mx \<equiv> sint (max_rate a)" and "mp \<equiv> sint (max_prob a)"
  assumes mp: "0 \<le> mp" "mp \<le> 100" and mnb: "\<bar>mn\<bar> \<le> 2 ^ 53" and mxb: "\<bar>mx\<bar> \<le> 2 ^ 53"
  shows "\<exists>p. new_prob a (Finite pps) = Inr p
     \<and> (pps \<le> of_int mn \<or> of_int mx \<le> pps \<longrightarrow> uint p = spec_probability mn mx mp pps)
     \<and> (of_int mn < pps \<and> pps < of_int mx
          \<longrightarrow> uint p
              = \<lfloor>round_nearest (round_nearest (round_nearest (pps - of_int mn)
                    / round_nearest (of_int (mx - mn))) * of_int mp)\<rfloor>)
     \<and> \<bar>uint p - spec_probability mn mx mp pps\<bar> \<le> 1"
proof -
  have rmn: "round_nearest (of_int mn) = (of_int mn :: rat)"
    using mnb by (rule round_nearest_of_int)
  have rmx: "round_nearest (of_int mx) = (of_int mx :: rat)"
    using mxb by (rule round_nearest_of_int)
  have dmn: "double_of_long (min_rate a) = Finite (of_int mn)"
    by (simp only: double_of_long_eq mn_def [symmetric] rmn)
  have dmx: "double_of_long (max_rate a) = Finite (of_int mx)"
    by (simp only: double_of_long_eq mx_def [symmetric] rmx)
  have uc: "uint (ucast (max_prob a) :: u32) = mp" unfolding mp_def using mp
    by (intro ucast_small) (simp_all add: mp_def)
  consider "pps \<le> of_int mn" | "of_int mn < pps" "of_int mx \<le> pps"
    | "of_int mn < pps" "pps < of_int mx"
    by linarith
  then show ?thesis
  proof cases
    case 1
    then have "new_prob a (Finite pps) = Inr 0" by (simp add: new_prob_def dmn)
    then show ?thesis using 1 by (simp add: spec_probability_def)
  next
    case 2
    then have "new_prob a (Finite pps) = Inr (ucast (max_prob a))"
      by (simp add: new_prob_def dmn dmx)
    then show ?thesis using 2 uc by (simp add: spec_probability_def)
  next
    case 3
    have lt: "mn < mx" using 3 by (metis less_trans of_int_less_iff)
    define A where "A = pps - of_int mn"
    define B :: rat where "B = of_int (mx - mn)"
    have A0: "0 \<le> A" and AB: "A \<le> B" using 3 by (simp_all add: A_def B_def)
    have B1: "1 \<le> B" using lt by (simp add: B_def)
    have "B * 1 \<le> B * (1 + unit_roundoff)" using B1 unit_roundoff_pos
      by (intro mult_left_mono) simp_all
    then have ABu: "A \<le> B * (1 + unit_roundoff)" using AB by simp
    have d: "long_sub (max_rate a) (min_rate a) = Inr (max_rate a - min_rate a)"
      using mnb mxb unfolding mn_def mx_def by (intro long_sub_small)
    define r where "r = round_nearest (round_nearest (round_nearest A / round_nearest B) * of_int mp)"
    obtain p where p: "new_prob a (Finite pps) = Inr p" and up: "uint p = \<lfloor>r\<rfloor>"
      using new_prob_between [of a pps, folded mn_def mx_def mp_def, OF mp _ _ lt _ d]
        3 ABu by (auto simp: rmn rmx A_def B_def r_def)
    have "\<bar>r - A / B * of_int mp\<bar> < 1"
      unfolding r_def using A0 AB B1 mp by (rule interpolation_error)
    then have "\<bar>\<lfloor>r\<rfloor> - \<lfloor>A / B * of_int mp\<rfloor>\<bar> \<le> 1" by (rule floor_near)
    moreover have "spec_probability mn mx mp pps = \<lfloor>A / B * of_int mp\<rfloor>"
      using 3 by (simp add: spec_probability_def A_def B_def)
    ultimately have "\<bar>uint p - spec_probability mn mx mp pps\<bar> \<le> 1" using up by simp
    moreover have "uint p = \<lfloor>round_nearest (round_nearest (round_nearest (pps - of_int mn)
                    / round_nearest (of_int (mx - mn))) * of_int mp)\<rfloor>"
      using up unfolding r_def A_def B_def .
    ultimately show ?thesis using p 3 by simp
  qed
qed

text \<open>
  \<^bold>\<open>C3.\<close> With \<open>max_prob\<close> in \<open>[0,100]\<close> and thresholds of magnitude at most \<open>2\<^sup>5\<^sup>3\<close> (which
  convert to \<open>double\<close> unchanged), the new probability for a finite rate is defined
  and is the clamped function of the specification wherever that function is
  clamped: 0 up to \<open>min_rate\<close>, \<open>max_prob\<close> from \<open>max_rate\<close> on. In between it is the
  truncation of the value that \<open>double\<close> arithmetic gives to
  \<open>((pps - min_rate) / (max_rate - min_rate)) * max_prob\<close>: the difference
  \<open>pps - min_rate\<close> and the converted \<open>max_rate - min_rate\<close> are rounded, their quotient
  is rounded, and its product with \<open>max_prob\<close> is rounded. This value differs from the
  floor of the exact value by at most 1. For the default thresholds 1000 and 100000
  and the default maximum 50, the rates 1000, 50500, 100000, 200000 and 500 give 0,
  25, 50, 50 and 0.
\<close>

theorem new_prob_near_spec:
  assumes "0 \<le> sint (max_prob a)" and "sint (max_prob a) \<le> 100"
    and "\<bar>sint (min_rate a)\<bar> \<le> 2 ^ 53" and "\<bar>sint (max_rate a)\<bar> \<le> 2 ^ 53"
  shows "(\<exists>p. new_prob a (Finite pps) = Inr p
        \<and> (pps \<le> of_int (sint (min_rate a)) \<or> of_int (sint (max_rate a)) \<le> pps
            \<longrightarrow> uint p
                = spec_probability (sint (min_rate a)) (sint (max_rate a)) (sint (max_prob a)) pps)
        \<and> (of_int (sint (min_rate a)) < pps \<and> pps < of_int (sint (max_rate a))
            \<longrightarrow> uint p
                = \<lfloor>round_nearest
                     (round_nearest
                        (round_nearest (pps - of_int (sint (min_rate a)))
                         / round_nearest (of_int (sint (max_rate a) - sint (min_rate a))))
                      * of_int (sint (max_prob a)))\<rfloor>)
        \<and> \<bar>uint p
             - spec_probability (sint (min_rate a)) (sint (max_rate a)) (sint (max_prob a)) pps\<bar>
            \<le> 1)
     \<and> new_prob initial_args (Finite 1000) = Inr 0
     \<and> new_prob initial_args (Finite 50500) = Inr 25
     \<and> new_prob initial_args (Finite 100000) = Inr 50
     \<and> new_prob initial_args (Finite 200000) = Inr 50
     \<and> new_prob initial_args (Finite 500) = Inr 0"
  using new_prob_vs_spec [OF assms, of pps] default_mapping_values by blast

theorem new_prob_near_spec_witness:
  "0 \<le> sint (max_prob initial_args) \<and> sint (max_prob initial_args) \<le> 100
   \<and> \<bar>sint (min_rate initial_args)\<bar> \<le> 2 ^ 53 \<and> \<bar>sint (max_rate initial_args)\<bar> \<le> 2 ^ 53
   \<and> (\<exists>p. new_prob initial_args (Finite 70000) = Inr p
          \<and> uint p
              = \<lfloor>round_nearest (round_nearest (round_nearest (70000 - 1000)
                    / round_nearest (of_int (100000 - 1000))) * 50)\<rfloor>
          \<and> \<bar>uint p - spec_probability 1000 100000 50 70000\<bar> \<le> 1)"
proof -
  have h: "0 \<le> sint (max_prob initial_args)" "sint (max_prob initial_args) \<le> 100"
    "\<bar>sint (min_rate initial_args)\<bar> \<le> 2 ^ 53" "\<bar>sint (max_rate initial_args)\<bar> \<le> 2 ^ 53"
    by (simp_all add: initial_args_def DEFAULT_MIN_RATE_PPS_def DEFAULT_MAX_RATE_PPS_def
        DEFAULT_MAX_PROBABILITY_def)
  have v: "sint (min_rate initial_args) = 1000" "sint (max_rate initial_args) = 100000"
    "sint (max_prob initial_args) = 50"
    by (simp_all add: initial_args_def DEFAULT_MIN_RATE_PPS_def DEFAULT_MAX_RATE_PPS_def
        DEFAULT_MAX_PROBABILITY_def)
  have "\<exists>p. new_prob initial_args (Finite 70000) = Inr p
      \<and> uint p
          = \<lfloor>round_nearest (round_nearest (round_nearest (70000 - of_int 1000)
                / round_nearest (of_int (100000 - 1000))) * of_int 50)\<rfloor>
      \<and> \<bar>uint p - spec_probability 1000 100000 50 70000\<bar> \<le> 1"
    using new_prob_near_spec [OF h, of 70000] unfolding v by fastforce
  then show ?thesis using h by simp
qed

text \<open>
  With the thresholds 0 and 100 and the maximum 100, a tick that counts 57 packets in
  one second measures the rate 57. The quotient 57/100 is rounded to a double just
  below it, the product with 100 to one just below 57, and the cast truncates it to
  56, where the floor of the exact value is 57.
\<close>

theorem new_prob_below_floor:
  "pps_of 57 1000000000 = Finite 57
   \<and> new_prob (initial_args\<lparr>min_rate := 0, max_rate := 100, max_prob := 100\<rparr>) (Finite 57)
      = Inr 56
   \<and> spec_probability 0 100 100 57 = 57"
  using pps_of_57 new_prob_57 spec_probability_57 by simp

section \<open>Thresholds whose difference overflows\<close>

text \<open>
  The thresholds are read with \<open>atol\<close> and never validated, and the interpolation
  subtracts them as \<open>long\<close>. With \<open>--min-rate -9223372036854775808\<close> and the default
  maximum rate the difference is \<open>100000 + 2^63\<close>, which no \<open>long\<close> holds.
\<close>

lemma pps_of_500: "pps_of 500 1000000000 = Finite 500"
  by (simp add: pps_of_def double_of_u64_eq round_double_small round_nearest_numeral)

lemma sint_min: "sint (- 9223372036854775808 :: c_long) = - 9223372036854775808"
  by simp

lemma round_nearest_nonpos: "q \<le> 0 \<Longrightarrow> round_nearest q \<le> 0"
  using round_nearest_mono [of q 0] by simp

lemma new_prob_overflow:
  "new_prob (initial_args\<lparr>mode := Some MODE_DYNAMIC, min_rate := - 9223372036854775808\<rparr>)
     (Finite 500) = Inl Signed_overflow"
proof -
  have "round_nearest (- 9223372036854775808) \<le> 0" by (rule round_nearest_nonpos) simp
  then have lo: "round_nearest (- 9223372036854775808) < 500" by simp
  show ?thesis
    using lo
    by (simp add: new_prob_def double_of_long_eq long_sub_def initial_args_def
        DEFAULT_MAX_RATE_PPS_def DEFAULT_MAX_PROBABILITY_def round_nearest_numeral)
qed

text \<open>
  What the interpolation gives when the subtraction wraps around, as it does on the
  usual two's complement machines: the difference is negative, the product is just
  below \<open>-50\<close>, and the cast of a negative double to \<open>__u32\<close> is out of range.
\<close>

lemma sint_wrapped:
  "sint (100000 - (- 9223372036854775808) :: c_long) = - 9223372036854675808"
  by simp

lemma round_pow63: "round_nearest 9223372036854775808 = 9223372036854775808"
proof -
  have "ilog2 9223372036854775808 < 64" by (rule ilog2_less) simp_all
  then have "ulp_exp 9223372036854775808 \<le> 52" by (simp add: ulp_exp_def)
  moreover have "(9223372036854775808 :: rat) = of_int 2048 * 2 powi 52" by simp
  ultimately show ?thesis by (rule round_nearest_exact [rotated])
qed

lemma round_sum: "round_nearest 9223372036854776308 = 9223372036854775808"
  using round_nearest_eval [of 63 9223372036854776308 4503599627370496]
  by simp

lemma round_wrapped: "round_nearest 9223372036854675808 = 9223372036854675456"
  using round_nearest_eval [of 62 9223372036854675808 9007199254740894]
  by simp

lemma round_quotient:
  "round_nearest (4503599627370496 / 4503599627370447)
   = 4503599627370545 / 4503599627370496"
  using round_nearest_eval [of 0 "4503599627370496 / 4503599627370447" 4503599627370545]
  by simp

lemma round_product:
  "round_nearest (112589990684263625 / 2251799813685248)
   = 7036874417766477 / 140737488355328"
  using round_nearest_eval [of 5 "112589990684263625 / 2251799813685248" 7036874417766477]
  by simp

lemma wrapped_difference_product:
  "double_mul
     (double_div (double_sub (Finite 500) (double_of_long (- 9223372036854775808)))
        (double_of_long (100000 - (- 9223372036854775808))))
     (double_of_long 50)
   = Finite (- (7036874417766477 / 140737488355328))"
proof -
  have h1: "double_of_long (- 9223372036854775808) = Finite (- 9223372036854775808)"
    using round_nearest_minus [of 9223372036854775808]
    by (simp add: double_of_long_eq round_pow63)
  have h2: "double_of_long (100000 - (- 9223372036854775808)) = Finite (- 9223372036854675456)"
    using round_nearest_minus [of 9223372036854675808]
    by (simp only: double_of_long_eq sint_wrapped) (simp add: round_wrapped)
  have h3: "double_of_long 50 = Finite 50"
    by (simp add: double_of_long_eq round_nearest_numeral)
  have h4: "double_sub (Finite 500) (Finite (- 9223372036854775808)) = Finite 9223372036854775808"
    by (simp add: round_double_small round_sum)
  have h5: "double_div (Finite 9223372036854775808) (Finite (- 9223372036854675456))
      = Finite (- (4503599627370545 / 4503599627370496))"
    using round_nearest_minus [of "4503599627370496 / 4503599627370447"]
    by (simp add: round_double_small round_quotient)
  have h6: "double_mul (Finite (- (4503599627370545 / 4503599627370496))) (Finite 50)
      = Finite (- (7036874417766477 / 140737488355328))"
    using round_nearest_minus [of "112589990684263625 / 2251799813685248"]
    by (simp add: round_double_small round_product)
  show ?thesis by (simp only: h1 h2 h3 h4 h5 h6)
qed

lemma wrapped_difference_truncated:
  "truncate_rat (- (7036874417766477 / 140737488355328)) = - 50"
proof -
  have "\<lceil>- (7036874417766477 / 140737488355328) :: rat\<rceil> = - 50"
    by (rule ceiling_unique) simp_all
  then show ?thesis by (simp add: truncate_rat_def)
qed

lemma wrapped_difference_cast:
  "double_to_u32 (Finite (- (7036874417766477 / 140737488355328)))
   = Inl Conversion_out_of_range"
  by (simp add: wrapped_difference_truncated)

subsection \<open>Ticks that are defined\<close>

text \<open>
  The subtraction is evaluated only for a rate strictly between the converted
  thresholds, and then \<open>min_rate < max_rate\<close>: the difference can be too large for a
  \<open>long\<close>, never too small.
\<close>

lemma new_prob_undefined_ordered:
  assumes "new_prob a pps = Inl ub"
  shows "sint (min_rate a) < sint (max_rate a)"
proof (rule ccontr)
  assume "\<not> sint (min_rate a) < sint (max_rate a)"
  then have "sint (max_rate a) \<le> sint (min_rate a)" by simp
  then have "(of_int (sint (max_rate a)) :: rat) \<le> of_int (sint (min_rate a))"
    by (simp only: of_int_le_iff)
  then have le: "round_nearest (of_int (sint (max_rate a)))
      \<le> round_nearest (of_int (sint (min_rate a)))"
    by (rule round_nearest_mono)
  show False
  proof (cases pps)
    case (Finite P)
    then show ?thesis using assms le
      by (auto simp: new_prob_def double_of_long_eq split: if_splits)
  next
    case PInf
    then show ?thesis using assms
      by (auto simp: new_prob_def double_of_long_eq split: if_splits)
  next
    case NInf
    then show ?thesis using assms
      by (auto simp: new_prob_def double_of_long_eq split: if_splits)
  next
    case NaN
    then show ?thesis using assms
      by (auto simp: new_prob_def double_of_long_eq split: if_splits)
  qed
qed

lemma tick_defined:
  assumes mp: "0 \<le> sint (max_prob a)" "sint (max_prob a) \<le> 100"
    and nov: "sint (max_rate a) - sint (min_rate a) < 2 ^ 63"
  shows "\<exists>ls' w. tick a ls ob = Inr (ls', w)"
proof (cases ob)
  case Lookup_failed
  then show ?thesis by simp
next
  case (Lookup_ok s now)
  define pps where "pps = pps_of (packet_count s - last_packet_count ls) (now - last_time_ns ls)"
  have "\<exists>p. new_prob a pps = Inr p"
  proof (cases "new_prob a pps")
    case (Inl ub)
    then have "sint (min_rate a) < sint (max_rate a)" by (rule new_prob_undefined_ordered)
    then have "long_sub (max_rate a) (min_rate a) \<noteq> Inl Signed_overflow"
      using nov by (simp add: long_sub_def)
    then show ?thesis
      using Inl new_prob_cases [OF mp pps_of_cases, of "packet_count s - last_packet_count ls"
          "now - last_time_ns ls"]
      unfolding pps_def by auto
  next
    case (Inr p)
    then show ?thesis by blast
  qed
  then obtain p where "new_prob a pps = Inr p" by blast
  then show ?thesis using Lookup_ok by (simp add: pps_def Let_def)
qed

lemma dynamic_loop_defined:
  assumes "\<And>ls ob. \<exists>ls' w. tick a ls ob = Inr (ls', w)"
  shows "\<exists>ls'. snd (dynamic_loop a ls obs) = Inr ls'"
proof (induction obs arbitrary: ls)
  case Nil
  then show ?case by simp
next
  case (Cons ob obs)
  obtain ls1 w1 where t: "tick a ls ob = Inr (ls1, w1)" using assms by blast
  show ?case using t Cons.IH [of ls1] by (cases w1) simp_all
qed

text \<open>
  When the options have passed the validation and \<open>max_rate - min_rate\<close> is not too
  large for a \<open>long\<close>, every record that the run writes to the map carries a
  \<open>drop_probability\<close> between 0 and 100, and in dynamic mode every iteration of the
  loop is defined, whatever the map and the clock return. This covers the thresholds
  with \<open>min_rate \<ge> max_rate\<close>.
\<close>

lemma defined_runs_in_range:
  assumes "parse_options opts initial_args = Inr a" and "validate a have_ifname = Inr u"
    and "sint (max_rate a) - sint (min_rate a) < 2 ^ 63"
  shows "(\<forall>w \<in> set (main_writes opts have_ifname e t0 obs). uint (drop_probability w) \<le> 100)
     \<and> (mode a = Some MODE_DYNAMIC
          \<longrightarrow> (\<exists>ls. snd (dynamic_loop a (initial_loop_state t0) obs) = Inr ls))"
proof -
  have "\<forall>w \<in> set (main_writes opts have_ifname e t0 obs). uint (drop_probability w) \<le> 100"
    using written_probability_in_range by blast
  moreover have "\<exists>ls. snd (dynamic_loop a (initial_loop_state t0) obs) = Inr ls"
    if "mode a = Some MODE_DYNAMIC"
  proof -
    have "0 \<le> sint (max_prob a)" "sint (max_prob a) \<le> 100"
      using validate_ok(3) [OF assms(2)] that by simp_all
    then show ?thesis using assms(3) by (intro dynamic_loop_defined tick_defined)
  qed
  ultimately show ?thesis by blast
qed

text \<open>
  \<^bold>\<open>C4.\<close> Not every run that has passed the validation publishes probabilities
  between 0 and 100. With \<open>--mode dynamic --min-rate -9223372036854775808\<close> the options
  pass the validation and the programs are attached. The first iteration that counts
  500 packets in one second measures a rate between the thresholds and subtracts
  them: \<open>100000 - min_rate\<close> overflows \<open>long\<close>, and the iteration has no defined result.
  Where the subtraction wraps around, the difference is negative, the product is
  just below \<open>-50\<close> and truncates to \<open>-50\<close>, which is no \<open>__u32\<close>; its low 32 bits are
  4294967246.
\<close>

theorem overflowing_thresholds_undefined:
  "main_startup [Opt_mode ''dynamic'', Opt_m (- 9223372036854775808)] True
     \<lparr>ifindex = 2, open_ok = True, load_ok = True, ing_prog_found = True,
      eg_prog_found = True, hook_create_err = 0, ing_attach_err = 0, eg_attach_err = 0,
      map_fd = 3, fixed_update_ret = 0\<rparr>
   = ([Bpf_object_open, Bpf_object_load, Tc_hook_create, Tc_attach_ingress, Tc_attach_egress,
       Install_signal_handlers], Dynamic_loop)
   \<and> parse_options [Opt_mode ''dynamic'', Opt_m (- 9223372036854775808)] initial_args
     = Inr (initial_args\<lparr>mode := Some MODE_DYNAMIC, min_rate := - 9223372036854775808\<rparr>)
   \<and> dynamic_loop (initial_args\<lparr>mode := Some MODE_DYNAMIC, min_rate := - 9223372036854775808\<rparr>)
       (initial_loop_state 0)
       [Lookup_ok \<lparr>packet_count = 500, dropped_count = 0, drop_probability = 0\<rparr> 1000000000]
     = ([], Inl Signed_overflow)
   \<and> double_mul
       (double_div (double_sub (Finite 500) (double_of_long (- 9223372036854775808)))
          (double_of_long (100000 - (- 9223372036854775808))))
       (double_of_long 50)
     = Finite (- (7036874417766477 / 140737488355328))
   \<and> truncate_rat (- (7036874417766477 / 140737488355328)) = - 50
   \<and> double_to_u32 (Finite (- (7036874417766477 / 140737488355328)))
     = Inl Conversion_out_of_range
   \<and> (word_of_int (- 50) :: u32) = 4294967246"
proof -
  have "main_startup [Opt_mode ''dynamic'', Opt_m (- 9223372036854775808)] True
     \<lparr>ifindex = 2, open_ok = True, load_ok = True, ing_prog_found = True,
      eg_prog_found = True, hook_create_err = 0, ing_attach_err = 0, eg_attach_err = 0,
      map_fd = 3, fixed_update_ret = 0\<rparr>
   = ([Bpf_object_open, Bpf_object_load, Tc_hook_create, Tc_attach_ingress, Tc_attach_egress,
       Install_signal_handlers], Dynamic_loop)"
    by (simp add: main_startup_def validate_def attach_and_run_def EEXIST_def initial_args_def
        DEFAULT_MAX_PROBABILITY_def)
  moreover have "parse_options [Opt_mode ''dynamic'', Opt_m (- 9223372036854775808)] initial_args
     = Inr (initial_args\<lparr>mode := Some MODE_DYNAMIC, min_rate := - 9223372036854775808\<rparr>)"
    by simp
  moreover have "dynamic_loop
       (initial_args\<lparr>mode := Some MODE_DYNAMIC, min_rate := - 9223372036854775808\<rparr>)
       (initial_loop_state 0)
       [Lookup_ok \<lparr>packet_count = 500, dropped_count = 0, drop_probability = 0\<rparr> 1000000000]
     = ([], Inl Signed_overflow)"
    by (simp add: initial_loop_state_def pps_of_500 new_prob_overflow)
  moreover have "(word_of_int (- 50) :: u32) = 4294967246" by simp
  ultimately show ?thesis
    using wrapped_difference_product wrapped_difference_truncated wrapped_difference_cast
    by (intro conjI)
qed

end
